theory Spec2Isabelle
  imports Complex_Main "HOL-Library.AList" "HOL-Library.Word"
begin

section \<open>Strings\<close>

text \<open>
  A JavaScript string is modelled as a \<^typ>\<open>string\<close>: a list of code units, here the
  code units below 256. In that range the characters that \<open>String.prototype.trim\<close> removes
  and that the regular expression class \<open>\s\<close> matches are TAB, LF, VT, FF, CR, SPACE and
  NBSP; the line terminators, which \<open>.\<close> does not match, are LF and CR; \<open>\d\<close> is
  the ten ASCII digits. Without the \<open>u\<close> flag, a case-insensitive match of an ASCII
  letter accepts exactly its two ASCII cases. The list model, whose properties are stated
  for every text, is given a second time on 16-bit code units further below.
\<close>

definition is_space :: "char \<Rightarrow> bool" where
  "is_space c \<longleftrightarrow> c \<in> set [CHR 0x09, CHR 0x0A, CHR 0x0B, CHR 0x0C, CHR 0x0D, CHR 0x20, CHR 0xA0]"

definition is_line_terminator :: "char \<Rightarrow> bool" where
  "is_line_terminator c \<longleftrightarrow> c = CHR 0x0A \<or> c = CHR 0x0D"

definition is_digit :: "char \<Rightarrow> bool" where
  "is_digit c \<longleftrightarrow> c \<in> set ''0123456789''"

text \<open>\<open>s.trim()\<close>\<close>

definition trim :: "string \<Rightarrow> string" where
  "trim s = rev (dropWhile is_space (rev (dropWhile is_space s)))"

text \<open>\<open>s.split("\n")\<close>: never empty; the empty string splits into one empty line.\<close>

fun split_lines :: "string \<Rightarrow> string list" where
  "split_lines [] = [[]]"
| "split_lines (c # cs) =
     (if c = CHR 0x0A then [] # split_lines cs
      else (case split_lines cs of l # ls \<Rightarrow> (c # l) # ls | [] \<Rightarrow> [[c]]))"

text \<open>\<open>xs.join(sep)\<close>\<close>

fun join :: "string \<Rightarrow> string list \<Rightarrow> string" where
  "join sep [] = []"
| "join sep [x] = x"
| "join sep (x # y # ys) = x @ sep @ join sep (y # ys)"

text \<open>The decimal rendering of a non-negative integer, as \<open>join\<close> and template literals
  produce it.\<close>

function show_nat :: "nat \<Rightarrow> string" where
  "show_nat n =
     (if n < 10 then [''0123456789'' ! n]
      else show_nat (n div 10) @ [''0123456789'' ! (n mod 10)])"
  by pat_completeness auto
termination
  by (relation "measure id") auto

declare show_nat.simps [simp del]

text \<open>
  The common tail \<open>\s{m,}(.+)$\<close> of the line patterns: a greedy run of at least \<open>m\<close>
  white-space characters, then a non-empty capture without line terminator that reaches the end
  of the string. The run is as long as possible; when the rest cannot be captured, the run gives
  characters back one at a time.
\<close>

definition dot_plus :: "string \<Rightarrow> bool" where
  "dot_plus s \<longleftrightarrow> s \<noteq> [] \<and> (\<forall>c \<in> set s. \<not> is_line_terminator c)"

definition spaces_then_rest :: "nat \<Rightarrow> string \<Rightarrow> string option" where
  "spaces_then_rest m s =
     (let w = length (takeWhile is_space s) in
      map_option (\<lambda>k. drop k s) (find (\<lambda>k. dot_plus (drop k s)) (rev [m ..< Suc w])))"

text \<open>\<open>\d+(?:\.\d+)*\<close> at the start of a string, greedy: the token and what follows it.
  Only the longest token can be followed by what the patterns below require next (an optional
  punctuation character and white space), so no shorter one is tried.\<close>

function dotted_tail :: "string \<Rightarrow> string \<times> string" where
  "dotted_tail s =
     (case s of
        [] \<Rightarrow> ([], s)
      | c # r \<Rightarrow>
          if c = CHR ''.'' \<and> takeWhile is_digit r \<noteq> [] then
            (let (t, r') = dotted_tail (dropWhile is_digit r)
             in (c # takeWhile is_digit r @ t, r'))
          else ([], s))"
  by pat_completeness auto
termination
  by (relation "measure length") (auto simp: length_dropWhile_le less_Suc_eq_le)

declare dotted_tail.simps [simp del]

definition dotted_number :: "string \<Rightarrow> (string \<times> string) option" where
  "dotted_number s =
     (if takeWhile is_digit s = [] then None
      else (let (t, r) = dotted_tail (dropWhile is_digit s)
            in Some (takeWhile is_digit s @ t, r)))"

text \<open>\<open>token.split(".").length\<close>\<close>

definition segments :: "string \<Rightarrow> nat" where
  "segments tok = Suc (length (filter (\<lambda>c. c = CHR ''.'') tok))"

section \<open>List model\<close>

text \<open>
  A list item as the editor stores it. Fresh identifiers come from the clock and the random
  number generator; the model takes them from a supply \<open>gen\<close>, indexed by the position of
  the item that asks for one.
\<close>

record list_item =
  item_id :: string
  item_text :: string
  item_level :: int

text \<open>What \<open>normalizeListItems\<close> accepts as an element: a plain string, or a record any of
  whose fields may be missing.\<close>

datatype raw_item = ItemString string | ItemRecord "string option" "string option" "int option"

definition of_item :: "list_item \<Rightarrow> raw_item" where
  "of_item it = ItemRecord (Some (item_id it)) (Some (item_text it)) (Some (item_level it))"

text \<open>\<open>Math.max(1, Math.min(3, Number(level) || 1))\<close>: zero and a missing level both count
  as 1.\<close>

definition clamp_level :: "int option \<Rightarrow> int" where
  "clamp_level l = max 1 (min 3 (case l of None \<Rightarrow> 1 | Some n \<Rightarrow> if n = 0 then 1 else n))"

definition createListItem :: "(nat \<Rightarrow> string) \<Rightarrow> nat \<Rightarrow> string \<Rightarrow> int \<Rightarrow> list_item" where
  "createListItem gen k txt lvl =
     \<lparr>item_id = gen k, item_text = txt, item_level = clamp_level (Some lvl)\<rparr>"

text \<open>The pattern \<open>/^(\d+(?:\.\d+)*)(?:\.)?\s+(.+)$/\<close> of \<open>normalizeListItems\<close>: the
  numeric token and the captured text.\<close>

definition match_numbered :: "string \<Rightarrow> (string \<times> string) option" where
  "match_numbered line =
     (case dotted_number line of
        None \<Rightarrow> None
      | Some (tok, r) \<Rightarrow>
          map_option (\<lambda>txt. (tok, txt))
            (spaces_then_rest 1 (case r of c # r' \<Rightarrow> if c = CHR ''.'' then r' else r | [] \<Rightarrow> r)))"

definition normalize_item :: "(nat \<Rightarrow> string) \<Rightarrow> nat \<Rightarrow> raw_item \<Rightarrow> list_item" where
  "normalize_item gen k item =
     (case item of
        ItemString s \<Rightarrow> createListItem gen k s 1
      | ItemRecord i t l \<Rightarrow>
          \<lparr>item_id = (case i of None \<Rightarrow> gen k | Some s \<Rightarrow> if s = [] then gen k else s),
           item_text = (case t of None \<Rightarrow> [] | Some s \<Rightarrow> s),
           item_level = clamp_level l\<rparr>)"

definition item_of_line :: "(nat \<Rightarrow> string) \<Rightarrow> nat \<Rightarrow> string \<Rightarrow> list_item" where
  "item_of_line gen k line =
     (case match_numbered line of
        Some (tok, txt) \<Rightarrow> createListItem gen k txt (int (segments tok))
      | None \<Rightarrow> createListItem gen k line 1)"

definition content_lines :: "string \<Rightarrow> string list" where
  "content_lines s = filter (\<lambda>l. l \<noteq> []) (map trim (split_lines s))"

definition normalizeListItems :: "(nat \<Rightarrow> string) \<Rightarrow> raw_item list \<Rightarrow> string \<Rightarrow> list_item list" where
  "normalizeListItems gen items fallbackContent =
     (if items \<noteq> [] then map (\<lambda>(k, item). normalize_item gen k item) (enumerate 0 items)
      else if content_lines fallbackContent \<noteq> []
      then map (\<lambda>(k, line). item_of_line gen k line) (enumerate 0 (content_lines fallbackContent))
      else [createListItem gen 0 [] 1])"

text \<open>One step of the counters of \<open>formatNumberedList\<close>: the counter of the level goes up by
  one and the counters of the deeper levels go back to zero.\<close>

definition bump :: "nat \<Rightarrow> nat list \<Rightarrow> nat list" where
  "bump l cs =
     (let cs1 = cs[l - 1 := cs ! (l - 1) + 1]
      in map (\<lambda>i. if i < l then cs1 ! i else 0) [0 ..< length cs1])"

definition item_depth :: "list_item \<Rightarrow> nat" where
  "item_depth it = nat (max 1 (min 3 (item_level it)))"

definition token :: "nat \<Rightarrow> nat list \<Rightarrow> string" where
  "token l cs = join ''.'' (map show_nat (take l cs))"

text \<open>The callback of \<open>map\<close> in \<open>formatNumberedList\<close>, with the counters it mutates passed
  along: the line of each item, empty for an item whose trimmed text is empty.\<close>

fun render_items :: "nat list \<Rightarrow> list_item list \<Rightarrow> string list" where
  "render_items cs [] = []"
| "render_items cs (it # its) =
     (let cs' = bump (item_depth it) cs
      in (if trim (item_text it) = [] then []
          else token (item_depth it) cs' @ '' '' @ trim (item_text it))
         # render_items cs' its)"

definition formatNumberedList :: "(nat \<Rightarrow> string) \<Rightarrow> raw_item list \<Rightarrow> string" where
  "formatNumberedList gen items =
     join [CHR 0x0A]
       (filter (\<lambda>l. l \<noteq> []) (render_items [0, 0, 0] (normalizeListItems gen items [])))"

section \<open>Text importer\<close>

text \<open>ASCII case mapping: what \<open>toLowerCase\<close> and \<open>toUpperCase\<close> do to the ASCII letters,
  the only letters of the role names. Other letters are left as they are, also where the
  sequencer puts the role of a node, which may be any string, in upper case.\<close>

definition lower_char :: "char \<Rightarrow> char" where
  "lower_char c =
     (case map_of (zip ''ABCDEFGHIJKLMNOPQRSTUVWXYZ'' ''abcdefghijklmnopqrstuvwxyz'') c of
        Some d \<Rightarrow> d | None \<Rightarrow> c)"

definition upper_char :: "char \<Rightarrow> char" where
  "upper_char c =
     (case map_of (zip ''abcdefghijklmnopqrstuvwxyz'' ''ABCDEFGHIJKLMNOPQRSTUVWXYZ'') c of
        Some d \<Rightarrow> d | None \<Rightarrow> c)"

definition toLowerCase :: "string \<Rightarrow> string" where
  "toLowerCase s = map lower_char s"

definition toUpperCase :: "string \<Rightarrow> string" where
  "toUpperCase s = map upper_char s"

text \<open>A literal at the start of a string, compared without regard to case (flag \<open>i\<close>); the
  literal is given in upper case. The result is the text as it stands in the string, and the
  rest.\<close>

definition ci_prefix :: "string \<Rightarrow> string \<Rightarrow> (string \<times> string) option" where
  "ci_prefix kw s =
     (if toUpperCase (take (length kw) s) = kw then Some (take (length kw) s, drop (length kw) s)
      else None)"

text \<open>An alternation of literals: the first alternative that matches. The role names start
  with different letters, so at most one does.\<close>

fun match_keyword :: "string list \<Rightarrow> string \<Rightarrow> (string \<times> string) option" where
  "match_keyword [] s = None"
| "match_keyword (kw # kws) s =
     (case ci_prefix kw s of Some r \<Rightarrow> Some r | None \<Rightarrow> match_keyword kws s)"

definition import_roles :: "string list" where
  "import_roles = [''SYSTEM'', ''USER'', ''ASSISTANT'']"

definition block_roles :: "string list" where
  "block_roles = [''SYSTEM'', ''USER'', ''ASSISTANT'', ''CONDITION'']"

text \<open>\<open>\[(\d+)\]\s*\<close> at the start of a string: the digits and the rest.\<close>

definition bracket_number :: "string \<Rightarrow> (string \<times> string) option" where
  "bracket_number s =
     (case s of
        [] \<Rightarrow> None
      | c # r \<Rightarrow>
          if c = CHR ''['' \<and> takeWhile is_digit r \<noteq> [] then
            (case dropWhile is_digit r of
               [] \<Rightarrow> None
             | d # r2 \<Rightarrow>
                 if d = CHR '']'' then Some (takeWhile is_digit r, dropWhile is_space r2)
                 else None)
          else None)"

text \<open>\<open>/^\[(\d+)\]\s*(SYSTEM|USER|ASSISTANT)\s*$/i\<close>: the number and the role as written.\<close>

definition parent_match :: "string \<Rightarrow> (string \<times> string) option" where
  "parent_match s =
     (case bracket_number s of
        None \<Rightarrow> None
      | Some (no, r) \<Rightarrow>
          (case match_keyword import_roles r of
             None \<Rightarrow> None
           | Some (kw, r2) \<Rightarrow> if dropWhile is_space r2 = [] then Some (no, kw) else None))"

text \<open>The pattern built for the children of parent \<open>no\<close>, \<open>^no\.\d+\s+(.+)$\<close>: the
  captured text.\<close>

definition child_match :: "string \<Rightarrow> string \<Rightarrow> string option" where
  "child_match no s =
     (if take (length no) s = no then
        (case drop (length no) s of
           [] \<Rightarrow> None
         | c # r \<Rightarrow>
             if c = CHR ''.'' \<and> takeWhile is_digit r \<noteq> []
             then spaces_then_rest 1 (dropWhile is_digit r)
             else None)
      else None)"

text \<open>The canonical graph: nodes and edges as the importer builds them and the validator
  reads them.\<close>

record gnode =
  node_id :: string
  role :: string
  label :: string
  content :: string

record gedge =
  from_id :: string
  to_id :: string

record graph =
  nodes :: "gnode list"
  edges :: "gedge list"

text \<open>A value as \<open>JSON.parse\<close> returns it. The parser itself belongs to the runtime and is a
  parameter \<open>parse\<close> of the importer: \<open>None\<close> stands for the exception it throws on a text
  that is not JSON. Numbers are kept abstract.\<close>

datatype 'n json =
    JNull
  | JBool bool
  | JNumber 'n
  | JString string
  | JArray "'n json list"
  | JObject "(string \<times> 'n json) list"

datatype 'n import_result = ImportError string | ImportJson "'n json" | ImportGraph graph

text \<open>\<open>/```json\s*([\s\S]*?)\s*```/i\<close>, searched from the left: the captured body.\<close>

definition fence_close :: "string \<Rightarrow> bool" where
  "fence_close s \<longleftrightarrow> take 3 (dropWhile is_space s) = ''```''"

fun fence_body :: "string \<Rightarrow> string option" where
  "fence_body [] = None"
| "fence_body (c # cs) =
     (if fence_close (c # cs) then Some [] else map_option ((#) c) (fence_body cs))"

fun find_fence :: "string \<Rightarrow> string option" where
  "find_fence [] = None"
| "find_fence (c # cs) =
     (case (case ci_prefix ''```JSON'' (c # cs) of
              None \<Rightarrow> None
            | Some (m, r) \<Rightarrow> fence_body (dropWhile is_space r)) of
        Some b \<Rightarrow> Some b
      | None \<Rightarrow> find_fence cs)"

text \<open>\<open>/({[\s\S]*})/\<close>: from the first opening brace to the last closing brace after it.\<close>

definition find_braces :: "string \<Rightarrow> string option" where
  "find_braces s =
     (case dropWhile (\<lambda>c. c \<noteq> CHR ''{'') s of
        [] \<Rightarrow> None
      | c # r \<Rightarrow>
          (let t = rev (dropWhile (\<lambda>c. c \<noteq> CHR ''}'') (rev r))
           in if t = [] then None else Some (c # t)))"

text \<open>\<open>extractJsonObject\<close>; \<open>null\<close> is \<^const>\<open>JNull\<close>.\<close>

definition extractJsonObject :: "(string \<Rightarrow> 'n json option) \<Rightarrow> string \<Rightarrow> 'n json" where
  "extractJsonObject parse txt =
     (if txt = [] then JNull
      else
        (case parse (trim txt) of
           Some v \<Rightarrow> v
         | None \<Rightarrow>
             (case (case find_fence (trim txt) of Some b \<Rightarrow> Some b | None \<Rightarrow> find_braces (trim txt)) of
                None \<Rightarrow> JNull
              | Some m \<Rightarrow> (case parse m of Some v \<Rightarrow> v | None \<Rightarrow> JNull))))"

text \<open>\<open>directJson && Array.isArray(directJson.nodes) && Array.isArray(directJson.edges)\<close>\<close>

definition is_array :: "'n json option \<Rightarrow> bool" where
  "is_array v = (case v of Some (JArray xs) \<Rightarrow> True | _ \<Rightarrow> False)"

definition is_json_graph :: "'n json \<Rightarrow> bool" where
  "is_json_graph v =
     (case v of
        JObject kvs \<Rightarrow> is_array (map_of kvs ''nodes'') \<and> is_array (map_of kvs ''edges'')
      | _ \<Rightarrow> False)"

text \<open>The scan of the parent/child dialect: the parents that are closed, and the one that is
  open.\<close>

record parent =
  parentNo :: string
  parent_role :: string
  children :: "string list"

record scan_state =
  parentChildNodes :: "parent list"
  currentParent :: "parent option"

definition scan_line :: "scan_state \<Rightarrow> string \<Rightarrow> scan_state" where
  "scan_line st line =
     (if trim line = [] then st
      else
        (case parent_match (trim line) of
           Some (no, kw) \<Rightarrow>
             \<lparr>parentChildNodes =
                (case currentParent st of
                   Some p \<Rightarrow> parentChildNodes st @ [p]
                 | None \<Rightarrow> parentChildNodes st),
              currentParent = Some \<lparr>parentNo = no, parent_role = toLowerCase kw, children = []\<rparr>\<rparr>
         | None \<Rightarrow>
             (case currentParent st of
                None \<Rightarrow> st
              | Some p \<Rightarrow>
                  (case child_match (parentNo p) (trim line) of
                     Some c \<Rightarrow> st\<lparr>currentParent := Some (p\<lparr>children := children p @ [trim c]\<rparr>)\<rparr>
                   | None \<Rightarrow>
                       if children p \<noteq> [] then
                         st\<lparr>currentParent :=
                              Some (p\<lparr>children :=
                                       butlast (children p)
                                       @ [trim (last (children p) @ '' '' @ trim line)]\<rparr>)\<rparr>
                       else st))))"

definition scan_parents :: "string list \<Rightarrow> parent list" where
  "scan_parents rawLines =
     (let st = foldl scan_line \<lparr>parentChildNodes = [], currentParent = None\<rparr> rawLines
      in (case currentParent st of
            Some p \<Rightarrow> parentChildNodes st @ [p]
          | None \<Rightarrow> parentChildNodes st))"

text \<open>\<open>role[0].toUpperCase() + role.slice(1)\<close>, on a role that is not empty.\<close>

definition capitalize :: "string \<Rightarrow> string" where
  "capitalize r = toUpperCase (take 1 r) @ drop 1 r"

definition import_id :: "nat \<Rightarrow> string" where
  "import_id index = ''import-'' @ show_nat (index + 1)"

definition parent_content :: "parent \<Rightarrow> string" where
  "parent_content item =
     (if children item \<noteq> []
      then join [CHR 0x0A]
             (map (\<lambda>(childIndex, child). show_nat (childIndex + 1) @ ''. '' @ child)
                (enumerate 0 (children item)))
      else ''No content'')"

text \<open>\<open>nodes.slice(0, -1).map((node, index) => ({from: node.id, to: nodes[index + 1].id}))\<close>\<close>

definition chain_edges :: "gnode list \<Rightarrow> gedge list" where
  "chain_edges ns =
     map (\<lambda>(a, b). \<lparr>from_id = node_id a, to_id = node_id b\<rparr>) (zip (butlast ns) (tl ns))"

definition parent_nodes :: "parent list \<Rightarrow> gnode list" where
  "parent_nodes ps =
     map (\<lambda>(index, item).
            \<lparr>node_id = import_id index, role = parent_role item,
             label = capitalize (parent_role item), content = parent_content item\<rparr>)
       (enumerate 0 ps)"

text \<open>The numbered outline. Its pattern \<open>/^(\d+(?:\.\d+)*)(?:[.)])?\s+(.+)$/\<close> differs from
  the one of the list model in the closing parenthesis it accepts after the number.\<close>

definition match_outline :: "string \<Rightarrow> (string \<times> string) option" where
  "match_outline line =
     (case dotted_number line of
        None \<Rightarrow> None
      | Some (tok, r) \<Rightarrow>
          map_option (\<lambda>txt. (tok, txt))
            (spaces_then_rest 1
               (case r of c # r' \<Rightarrow> if c = CHR ''.'' \<or> c = CHR '')'' then r' else r | [] \<Rightarrow> r)))"

record outline_item =
  outline_label :: string
  outline_content :: string

definition outline_line :: "outline_item list \<times> string \<Rightarrow> string \<Rightarrow> outline_item list \<times> string" where
  "outline_line st line =
     (case st of (outlineNodes, currentSection) \<Rightarrow>
        (case match_outline line of
           Some (stepNo, txt) \<Rightarrow>
             if trim txt = [] then st
             else
               (outlineNodes @
                  [\<lparr>outline_label =
                      (if currentSection \<noteq> [] then currentSection @ '' ('' @ stepNo @ '')''
                       else ''Step '' @ stepNo),
                    outline_content =
                      (if currentSection \<noteq> [] then currentSection @ '': '' @ trim txt
                       else trim txt)\<rparr>],
                currentSection)
         | None \<Rightarrow> (outlineNodes, line)))"

definition outline_nodes :: "outline_item list \<Rightarrow> gnode list" where
  "outline_nodes items =
     map (\<lambda>(index, item).
            \<lparr>node_id = import_id index, role = ''user'',
             label = outline_label item, content = outline_content item\<rparr>)
       (enumerate 0 items)"

text \<open>
  The role blocks. The header \<open>\[\d+\]\s*(ROLE)\s*\n\<close> ends behind the last line feed of the
  white space that follows the role: the greedy \<open>\s*\<close> gives back as little as it must.
  The body \<open>[\s\S]*?\<close> is the shortest text after which the next header follows on a new
  line, or the input ends.
\<close>

definition header_at :: "string \<Rightarrow> (string \<times> string) option" where
  "header_at s =
     (case bracket_number s of
        None \<Rightarrow> None
      | Some (no, r) \<Rightarrow>
          (case match_keyword block_roles r of
             None \<Rightarrow> None
           | Some (kw, r2) \<Rightarrow>
               if CHR 0x0A \<in> set (takeWhile is_space r2)
               then Some (kw, rev (takeWhile (\<lambda>c. c \<noteq> CHR 0x0A) (rev (takeWhile is_space r2)))
                              @ dropWhile is_space r2)
               else None))"

fun find_header :: "string \<Rightarrow> (string \<times> string) option" where
  "find_header [] = None"
| "find_header (c # cs) =
     (case header_at (c # cs) of Some r \<Rightarrow> Some r | None \<Rightarrow> find_header cs)"

fun lazy_body :: "string \<Rightarrow> string \<times> string" where
  "lazy_body [] = ([], [])"
| "lazy_body (c # cs) =
     (if c = CHR 0x0A \<and> header_at cs \<noteq> None then ([], c # cs)
      else (case lazy_body cs of (b, r) \<Rightarrow> (c # b, r)))"

record block =
  block_role :: string
  block_content :: string

lemma length_bracket_number:
  "bracket_number s = Some (no, r) \<Longrightarrow> length r < length s"
proof -
  have le: "length (dropWhile P xs) \<le> length xs" for P and xs :: string
    by (rule length_dropWhile_le)
  assume a: "bracket_number s = Some (no, r)"
  then obtain c t d r2 where s: "s = c # t"
    and d: "dropWhile is_digit t = d # r2" and r: "r = dropWhile is_space r2"
    by (auto simp: bracket_number_def split: list.splits if_splits)
  have "length r \<le> length r2" using r le by simp
  moreover have "length (d # r2) \<le> length t" using le [of is_digit t] d by simp
  ultimately show ?thesis using s by simp
qed

lemma length_match_keyword:
  "match_keyword kws s = Some (kw, r) \<Longrightarrow> length r \<le> length s"
  by (induction kws) (auto simp: ci_prefix_def split: if_splits option.splits)

lemma length_header_at:
  assumes "header_at s = Some (kw, rest)"
  shows "length rest < length s"
proof -
  from assms obtain no r where b: "bracket_number s = Some (no, r)"
    by (auto simp: header_at_def split: option.splits)
  from assms b obtain r2 where k: "match_keyword block_roles r = Some (kw, r2)"
    and rest: "rest = rev (takeWhile (\<lambda>c. c \<noteq> CHR 0x0A) (rev (takeWhile is_space r2)))
                      @ dropWhile is_space r2"
    by (auto simp: header_at_def split: option.splits if_splits)
  have "length (takeWhile (\<lambda>c. c \<noteq> CHR 0x0A) (rev (takeWhile is_space r2)))
          \<le> length (takeWhile is_space r2)"
    using length_takeWhile_le [of "\<lambda>c. c \<noteq> CHR 0x0A" "rev (takeWhile is_space r2)"] by simp
  moreover have "length (takeWhile is_space r2) + length (dropWhile is_space r2) = length r2"
    using takeWhile_dropWhile_id [of is_space r2] length_append
    by (metis)
  ultimately have "length rest \<le> length r2" using rest by simp
  with length_match_keyword [OF k] length_bracket_number [OF b] show ?thesis by simp
qed

lemma length_find_header:
  "find_header s = Some (kw, rest) \<Longrightarrow> length rest < length s"
proof (induction s)
  case Nil
  then show ?case by simp
next
  case (Cons c cs)
  show ?case
  proof (cases "header_at (c # cs)")
    case None
    with Cons show ?thesis by fastforce
  next
    case (Some r)
    with Cons.prems have "header_at (c # cs) = Some (kw, rest)" by simp
    then show ?thesis by (rule length_header_at)
  qed
qed

lemma length_lazy_body: "length (snd (lazy_body s)) \<le> length s"
  by (induction s) (auto split: prod.splits)

text \<open>The loop over \<open>blockRegex.exec(raw)\<close>: every match consumes at least its header, and
  the next search starts where the match ended.\<close>

function scan_blocks :: "string \<Rightarrow> block list" where
  "scan_blocks s =
     (case find_header s of
        None \<Rightarrow> []
      | Some (kw, rest) \<Rightarrow>
          (case lazy_body rest of
             (body, after) \<Rightarrow>
               \<lparr>block_role = toLowerCase kw, block_content = trim body\<rparr> # scan_blocks after))"
  by pat_completeness auto
termination
proof (relation "measure length", goal_cases)
  case 1
  show ?case by simp
next
  case (2 s x2 kw rest body after)
  then have "find_header s = Some (kw, rest)" and "after = snd (lazy_body rest)"
    by (auto simp: snd_def split: prod.splits)
  with length_find_header [of s kw rest] length_lazy_body [of rest] show ?case by simp
qed

declare scan_blocks.simps [simp del]

text \<open>\<open>/^(system|user|assistant|condition)\s*:\s*(.+)$/i\<close>\<close>

definition role_line :: "string \<Rightarrow> block option" where
  "role_line line =
     (case match_keyword block_roles line of
        None \<Rightarrow> None
      | Some (kw, r) \<Rightarrow>
          (case dropWhile is_space r of
             [] \<Rightarrow> None
           | c # r2 \<Rightarrow>
               if c = CHR '':'' then
                 map_option (\<lambda>txt. \<lparr>block_role = toLowerCase kw, block_content = trim txt\<rparr>)
                   (spaces_then_rest 0 r2)
               else None))"

definition block_nodes :: "block list \<Rightarrow> gnode list" where
  "block_nodes items =
     map (\<lambda>(index, item).
            \<lparr>node_id = import_id index, role = block_role item,
             label = capitalize (block_role item), content = block_content item\<rparr>)
       (enumerate 0 items)"

definition parsed_blocks :: "string \<Rightarrow> block list" where
  "parsed_blocks raw =
     (let blocks = filter (\<lambda>b. block_content b \<noteq> []) (scan_blocks raw) in
      if blocks \<noteq> [] then blocks
      else
        (let linePattern = List.map_filter role_line (content_lines raw) in
         if linePattern \<noteq> [] then linePattern
         else [\<lparr>block_role = ''user'', block_content = raw\<rparr>]))"

definition parsePromptTextToGraph :: "(string \<Rightarrow> 'n json option) \<Rightarrow> string \<Rightarrow> 'n import_result" where
  "parsePromptTextToGraph parse txt =
     (let raw = trim txt in
      if raw = [] then ImportError ''Prompt text is empty.''
      else if is_json_graph (extractJsonObject parse raw) then ImportJson (extractJsonObject parse raw)
      else if scan_parents (split_lines raw) \<noteq> [] then
        ImportGraph \<lparr>nodes = parent_nodes (scan_parents (split_lines raw)),
                     edges = chain_edges (parent_nodes (scan_parents (split_lines raw)))\<rparr>
      else if fst (foldl outline_line ([], []) (content_lines raw)) \<noteq> [] then
        ImportGraph
          \<lparr>nodes = outline_nodes (fst (foldl outline_line ([], []) (content_lines raw))),
           edges = chain_edges (outline_nodes (fst (foldl outline_line ([], []) (content_lines raw))))\<rparr>
      else
        ImportGraph \<lparr>nodes = block_nodes (parsed_blocks raw),
                     edges = chain_edges (block_nodes (parsed_blocks raw))\<rparr>)"

section \<open>Properties of the text importer\<close>

subsection \<open>The two-parent scenario\<close>

definition scenario_text :: string where
  "scenario_text = ''[1] SYSTEM'' @ [CHR 0x0A] @ ''1.1 Be concise.'' @ [CHR 0x0A] @ ''[2] USER'' @ [CHR 0x0A] @ ''2.1 Ask a question.''"

lemma scenario_trim: "trim scenario_text = scenario_text" by code_simp
lemma scenario_no_fence: "find_fence scenario_text = None" by code_simp
lemma scenario_no_braces: "find_braces scenario_text = None" by code_simp
lemma scenario_parents: "parent_nodes (scan_parents (split_lines scenario_text)) = 
   [\<lparr>node_id = ''import-1'', role = ''system'', label = ''System'',
         content = ''1. Be concise.''\<rparr>,
      \<lparr>node_id = ''import-2'', role = ''user'', label = ''User'',
         content = ''1. Ask a question.''\<rparr>]" by code_simp
lemma scenario_not_Nil: "scenario_text \<noteq> []" by code_simp

text \<open>
  C8: importing the text "[1] SYSTEM", "1.1 Be concise.", "[2] USER", "2.1 Ask a question."
  (four lines) gives exactly two nodes, the first of role system with content
  "1. Be concise.", the second of role user with content "1. Ask a question.", and exactly one
  edge, from the first to the second. The text is not JSON, so \<open>JSON.parse\<close> throws on it:
  that is the hypothesis on the parser.
\<close>

theorem import_scenario:
  assumes "parse scenario_text = None"
  shows "parsePromptTextToGraph parse scenario_text =
     ImportGraph
       \<lparr>nodes =
          [\<lparr>node_id = ''import-1'', role = ''system'', label = ''System'',
            content = ''1. Be concise.''\<rparr>,
           \<lparr>node_id = ''import-2'', role = ''user'', label = ''User'',
            content = ''1. Ask a question.''\<rparr>],
        edges = [\<lparr>from_id = ''import-1'', to_id = ''import-2''\<rparr>]\<rparr>"
proof -
  have x: "extractJsonObject parse scenario_text = JNull"
    using assms
    by (simp add: extractJsonObject_def scenario_trim scenario_no_fence scenario_no_braces
        scenario_not_Nil)
  have y: "scan_parents (split_lines scenario_text) \<noteq> []"
    using scenario_parents by (auto simp: parent_nodes_def)
  show ?thesis
    by (simp add: parsePromptTextToGraph_def scenario_trim scenario_not_Nil x y scenario_parents
        is_json_graph_def chain_edges_def)
qed


theorem import_scenario_witness:
  "(\<lambda>s. None :: unit json option) scenario_text = None
   \<and> parsePromptTextToGraph (\<lambda>s. None :: unit json option) scenario_text =
     ImportGraph
       \<lparr>nodes =
          [\<lparr>node_id = ''import-1'', role = ''system'', label = ''System'',
            content = ''1. Be concise.''\<rparr>,
           \<lparr>node_id = ''import-2'', role = ''user'', label = ''User'',
            content = ''1. Ask a question.''\<rparr>],
        edges = [\<lparr>from_id = ''import-1'', to_id = ''import-2''\<rparr>]\<rparr>"
  using import_scenario [of "\<lambda>s. None :: unit json option"] by simp

subsection \<open>The empty text is the only error\<close>

lemma enumerate_eq_Nil: "enumerate n xs = [] \<longleftrightarrow> xs = []"
  by (cases xs) auto

lemma parsed_blocks_not_Nil: "parsed_blocks raw \<noteq> []"
  by (simp add: parsed_blocks_def Let_def)

text \<open>
  C5: the importer returns the error "Prompt text is empty." if and only if the text trims to
  the empty string; every other text gives a graph: the JSON value with its two arrays, or a
  graph the importer built, which has at least one node. The importer is a total function, so
  there is no exception and no other error.
\<close>

theorem import_error_iff_blank:
  "(parsePromptTextToGraph parse txt = ImportError ''Prompt text is empty.'' \<longleftrightarrow> trim txt = [])
   \<and> (trim txt \<noteq> [] \<longrightarrow>
        (\<exists>j. parsePromptTextToGraph parse txt = ImportJson j \<and> is_json_graph j)
        \<or> (\<exists>g. parsePromptTextToGraph parse txt = ImportGraph g \<and> nodes g \<noteq> []))"
  by (simp add: parsePromptTextToGraph_def Let_def parent_nodes_def outline_nodes_def
      block_nodes_def parsed_blocks_not_Nil enumerate_eq_Nil)

theorem import_error_iff_blank_witness:
  "trim ''hi'' \<noteq> []
   \<and> ((\<exists>j. parsePromptTextToGraph (\<lambda>s. None :: unit json option) ''hi'' = ImportJson j \<and> is_json_graph j)
        \<or> (\<exists>g. parsePromptTextToGraph (\<lambda>s. None :: unit json option) ''hi'' = ImportGraph g \<and> nodes g \<noteq> []))
   \<and> trim '' '' = []
   \<and> parsePromptTextToGraph (\<lambda>s. None :: unit json option) '' '' = ImportError ''Prompt text is empty.''"
proof -
  have a: "trim ''hi'' \<noteq> []" by code_simp
  have b: "trim '' '' = []" by code_simp
  show ?thesis
    using a b import_error_iff_blank [of "\<lambda>s. None :: unit json option" "''hi''"]
      import_error_iff_blank [of "\<lambda>s. None :: unit json option" "'' ''"]
    by blast
qed


subsection \<open>Continuation lines of the parent/child dialect\<close>

text \<open>The children of every parent are trimmed and not empty, whatever lines were scanned.\<close>

definition trimmed :: "string \<Rightarrow> bool" where
  "trimmed s \<longleftrightarrow> s \<noteq> [] \<and> \<not> is_space (hd s) \<and> \<not> is_space (last s)"

lemma dropWhile_hd_id: "xs \<noteq> [] \<Longrightarrow> \<not> P (hd xs) \<Longrightarrow> dropWhile P xs = xs"
  by (cases xs) auto

lemma trim_trimmed: "trimmed s \<Longrightarrow> trim s = s"
proof -
  assume t: "trimmed s"
  then have 1: "dropWhile is_space s = s" by (simp add: trimmed_def dropWhile_hd_id)
  from t have "rev s \<noteq> []" "\<not> is_space (hd (rev s))" by (simp_all add: trimmed_def hd_rev)
  then have "dropWhile is_space (rev s) = rev s" by (rule dropWhile_hd_id)
  with 1 show ?thesis by (simp add: trim_def)
qed

lemma trimmed_trim: "trim s \<noteq> [] \<Longrightarrow> trimmed (trim s)"
proof -
  assume a: "trim s \<noteq> []"
  let ?d = "dropWhile is_space s"
  have d: "?d \<noteq> []"
  proof
    assume e: "?d = []"
    have "trim s = []" unfolding trim_def e by simp
    with a show False by simp
  qed
  have n: "dropWhile is_space (rev ?d) \<noteq> []" using a by (simp add: trim_def)
  have l: "\<not> is_space (last (trim s))"
    using n unfolding trim_def by (metis hd_dropWhile last_rev rev_rev_ident)
  have h0: "\<not> is_space (hd ?d)" using d by (rule hd_dropWhile)
  obtain ys zs where yz: "rev ?d = ys @ zs" "dropWhile is_space (rev ?d) = zs"
    by (metis takeWhile_dropWhile_id)
  then have "?d = rev zs @ rev ys" by (metis rev_append rev_rev_ident)
  moreover have "rev zs \<noteq> []" using yz n by simp
  ultimately have "hd (rev zs) = hd ?d" by simp
  then have h: "\<not> is_space (hd (trim s))" using h0 yz by (simp add: trim_def)
  show ?thesis using a l h by (simp add: trimmed_def)
qed

lemma find_Some_set: "find P xs = Some x \<Longrightarrow> P x \<and> x \<in> set xs"
  by (induction xs) (auto split: if_splits)

lemma spaces_then_rest_Nil: "spaces_then_rest m [] = None"
  by (simp add: spaces_then_rest_def dot_plus_def find_None_iff)

lemma find_rev_upt_top:
  "m \<le> w \<Longrightarrow> P w \<Longrightarrow> find P (rev [m ..< Suc w]) = Some w"
  by simp

lemma spaces_then_rest_trimmed:
  assumes r: "r \<noteq> []" "\<not> is_space (last r)" and res: "spaces_then_rest m r = Some c"
  shows "c = dropWhile is_space r \<and> trimmed c"
proof -
  let ?w = "length (takeWhile is_space r)"
  have dw: "drop ?w r = dropWhile is_space r" by (rule dropWhile_eq_drop [symmetric])
  have ne: "dropWhile is_space r \<noteq> []" using r
    by (metis dropWhile_eq_Nil_conv last_in_set)
  from res obtain k where k: "find (\<lambda>k. dot_plus (drop k r)) (rev [m ..< Suc ?w]) = Some k" and c: "c = drop k r"
    by (auto simp: spaces_then_rest_def Let_def)
  from find_Some_set [OF k] have kb: "m \<le> k" "k \<le> ?w" and dp: "dot_plus (drop k r)"
    by auto
  have "set (drop ?w r) \<subseteq> set (drop k r)" using kb by (simp add: set_drop_subset_set_drop)
  then have "dot_plus (drop ?w r)" using dp ne dw by (auto simp: dot_plus_def)
  then have "find (\<lambda>k. dot_plus (drop k r)) (rev [m ..< Suc ?w]) = Some ?w"
    using kb by simp
  with k have "k = ?w" by simp
  then have ceq: "c = dropWhile is_space r" using c dw by simp
  have "\<not> is_space (hd c)" using ne ceq by (simp add: hd_dropWhile)
  moreover have "last c = last r" using ne ceq
    by (metis last_appendR takeWhile_dropWhile_id)
  ultimately show ?thesis using ne ceq r by (simp add: trimmed_def)
qed

lemma child_match_trimmed:
  assumes "trimmed l" "child_match no l = Some c"
  shows "trimmed c"
proof -
  from assms(2) obtain d r where dr: "drop (length no) l = d # r" 
    and s: "spaces_then_rest 1 (dropWhile is_digit r) = Some c"
    by (auto simp: child_match_def split: if_splits list.splits)
  let ?r = "dropWhile is_digit r"
  have rne: "?r \<noteq> []" using s spaces_then_rest_Nil by fastforce
  have "l = take (length no) l @ d # takeWhile is_digit r @ ?r"
    using dr by (metis append_take_drop_id takeWhile_dropWhile_id)
  then have "last l = last ?r" using rne
    by (metis append_is_Nil_conv last_ConsR last_appendR list.distinct(1))
  then have "\<not> is_space (last ?r)" using assms(1) by (simp add: trimmed_def)
  with spaces_then_rest_trimmed [OF rne _ s] show ?thesis by blast
qed

definition children_trimmed :: "scan_state \<Rightarrow> bool" where
  "children_trimmed st \<longleftrightarrow>
     (\<forall>p \<in> set (parentChildNodes st) \<union> set_option (currentParent st).
        \<forall>c \<in> set (children p). trimmed c)"

lemma trimmed_append: "trimmed a \<Longrightarrow> trimmed b \<Longrightarrow> trimmed (a @ '' '' @ b)"
  by (auto simp: trimmed_def)

lemma children_trimmed_scan_line:
  assumes "children_trimmed st"
  shows "children_trimmed (scan_line st line)"
proof (cases "trim line = []")
  case True
  then show ?thesis using assms by (simp add: scan_line_def)
next
  case False
  then have tl: "trimmed (trim line)" by (rule trimmed_trim)
  show ?thesis
  proof (cases "parent_match (trim line)")
    case (Some a)
    then show ?thesis using assms False
      by (cases a) (auto simp: scan_line_def children_trimmed_def split: option.splits)
  next
    case None
    show ?thesis
    proof (cases "currentParent st")
      case N: None
      then show ?thesis using assms False None by (simp add: scan_line_def)
    next
      case (Some p)
      show ?thesis
      proof (cases "child_match (parentNo p) (trim line)")
        case (Some c)
        then have "trimmed c" using tl child_match_trimmed by blast
        then have "trim c = c" "trimmed c" by (simp_all add: trim_trimmed)
        then show ?thesis using assms False None \<open>currentParent st = Some p\<close> Some
          by (auto simp: scan_line_def children_trimmed_def)
      next
        case N2: None
        show ?thesis
        proof (cases "children p = []")
          case True
          then show ?thesis using assms False None \<open>currentParent st = Some p\<close> N2
            by (simp add: scan_line_def)
        next
          case F: False
          then have "trimmed (last (children p))" using assms \<open>currentParent st = Some p\<close>
            by (auto simp: children_trimmed_def)
          then have t: "trimmed (last (children p) @ '' '' @ trim line)" using tl
            by (rule trimmed_append)
          have "\<forall>c \<in> set (butlast (children p)). trimmed c"
            using assms \<open>currentParent st = Some p\<close>
            by (auto simp: children_trimmed_def dest: in_set_butlastD)
          then show ?thesis using assms False None \<open>currentParent st = Some p\<close> N2 F t
            by (auto simp: scan_line_def children_trimmed_def trim_trimmed)
        qed
      qed
    qed
  qed
qed

lemma children_trimmed_foldl:
  "children_trimmed st \<Longrightarrow> children_trimmed (foldl scan_line st ls)"
  by (induction ls arbitrary: st) (auto simp: children_trimmed_scan_line)

text \<open>
  C7, as the code has it: while a parent is open, a line that is not empty and matches neither
  the header pattern nor the child pattern of that parent is appended, after a single space, to
  the text of the last child of the parent, provided the parent has a child already; before the
  first child the line is dropped and the state stays as it is.
\<close>

theorem continuation_line:
  assumes "st = foldl scan_line \<lparr>parentChildNodes = [], currentParent = None\<rparr> ls"
    and "currentParent st = Some p"
    and "trim line \<noteq> []"
    and "parent_match (trim line) = None"
    and "child_match (parentNo p) (trim line) = None"
  shows "scan_line st line =
     (if children p = [] then st
      else st\<lparr>currentParent :=
                Some (p\<lparr>children := butlast (children p)
                                     @ [last (children p) @ '' '' @ trim line]\<rparr>)\<rparr>)"
proof (cases "children p = []")
  case True
  then show ?thesis using assms by (simp add: scan_line_def)
next
  case False
  have "children_trimmed st" unfolding assms(1)
    by (rule children_trimmed_foldl) (simp add: children_trimmed_def)
  then have "trimmed (last (children p))" using assms(2) False
    by (auto simp: children_trimmed_def)
  moreover have "trimmed (trim line)" using assms(3) by (rule trimmed_trim)
  ultimately have "trim (last (children p) @ '' '' @ trim line) = last (children p) @ '' '' @ trim line"
    by (intro trim_trimmed trimmed_append)
  then show ?thesis using assms False by (simp add: scan_line_def)
qed


theorem continuation_line_witness:
  "foldl scan_line \<lparr>parentChildNodes = [], currentParent = None\<rparr> [''[1] SYSTEM'', ''1.1 a'']
     = \<lparr>parentChildNodes = [], currentParent = Some \<lparr>parentNo = ''1'', parent_role = ''system'', children = [''a'']\<rparr>\<rparr>
   \<and> trim ''more '' \<noteq> []
   \<and> parent_match (trim ''more '') = None
   \<and> child_match ''1'' (trim ''more '') = None
   \<and> scan_line \<lparr>parentChildNodes = [], currentParent = Some \<lparr>parentNo = ''1'', parent_role = ''system'', children = [''a'']\<rparr>\<rparr> ''more ''
       = \<lparr>parentChildNodes = [], currentParent = Some \<lparr>parentNo = ''1'', parent_role = ''system'', children = [''a more'']\<rparr>\<rparr>"
proof -
  let ?p = "\<lparr>parentNo = ''1'', parent_role = ''system'', children = [''a'']\<rparr>"
  let ?st = "\<lparr>parentChildNodes = [], currentParent = Some ?p\<rparr>"
  have 1: "foldl scan_line \<lparr>parentChildNodes = [], currentParent = None\<rparr> [''[1] SYSTEM'', ''1.1 a''] = ?st"
    by code_simp
  have 2: "currentParent ?st = Some ?p" by simp
  have 3: "trim ''more '' \<noteq> []" by code_simp
  have 4: "parent_match (trim ''more '') = None" by code_simp
  have 5: "child_match (parentNo ?p) (trim ''more '') = None" by code_simp
  have 6: "trim ''more '' = ''more''" by code_simp
  from continuation_line [OF 1 [symmetric] 2 3 4 5] 1 3 4 5 6 show ?thesis by simp
qed


text \<open>
  C7 as stated fails for a parent without children: after the header "[1] SYSTEM" the line
  "hello" is not empty and matches neither pattern, and the scan leaves the state unchanged, so
  the parent ends with no child at all.
\<close>

definition open_parent_state :: scan_state where
  "open_parent_state = foldl scan_line \<lparr>parentChildNodes = [], currentParent = None\<rparr> [''[1] SYSTEM'']"

theorem continuation_line_counterexample:
  "currentParent open_parent_state = Some \<lparr>parentNo = ''1'', parent_role = ''system'', children = []\<rparr>
   \<and> trim ''hello'' \<noteq> []
   \<and> parent_match (trim ''hello'') = None
   \<and> child_match ''1'' (trim ''hello'') = None
   \<and> scan_line open_parent_state ''hello'' = open_parent_state
   \<and> scan_parents [''[1] SYSTEM'', ''hello''] = [\<lparr>parentNo = ''1'', parent_role = ''system'', children = []\<rparr>]"
  by code_simp

section \<open>Auxiliary facts on the list model\<close>

lemma three_cases: "1 \<le> d \<Longrightarrow> d \<le> 3 \<Longrightarrow> d = 1 \<or> d = 2 \<or> d = (3::nat)"
  by arith

lemma length3: "length cs = 3 \<Longrightarrow> \<exists>a b c. cs = [a, b, c]"
  by (cases cs; cases "tl cs"; cases "tl (tl cs)") (auto simp: numeral_3_eq_3)

lemma clamp_level_depth: "1 \<le> d \<Longrightarrow> d \<le> 3 \<Longrightarrow> clamp_level (Some (int d)) = int d"
  by (simp add: clamp_level_def)

lemma length_bump: "length (bump l cs) = length cs"
  by (simp add: bump_def Let_def)

lemma render_items_cong:
  "list_all2 (\<lambda>a b. item_depth a = item_depth b \<and> trim (item_text a) = trim (item_text b)) xs ys
   \<Longrightarrow> render_items cs xs = render_items cs ys"
  by (induction xs ys arbitrary: cs rule: list_all2_induct) (auto simp: Let_def)

lemma normalizeListItems_items:
  "items \<noteq> [] \<Longrightarrow> normalizeListItems gen items fb
     = map (\<lambda>(k, item). normalize_item gen k item) (enumerate 0 items)"
  by (simp add: normalizeListItems_def)

definition sample_gen :: "nat \<Rightarrow> string" where
  "sample_gen k = ''li-'' @ show_nat k"

section \<open>The list model on strings of UTF-16 code units\<close>

text \<open>
  A JavaScript string is a sequence of 16-bit code units. The functions of the list model are
  given here a second time, on lists of 16-bit words, so that a text may hold any character.
  \<open>String.prototype.trim\<close> removes, and the class \<open>\s\<close> matches, the white space and the
  line terminators of the language: TAB, VT, FF, SPACE, NBSP, the byte order mark U+FEFF and the
  other space separators U+1680, U+2000 to U+200A, U+202F, U+205F and U+3000, and the line
  terminators LF, CR, U+2028 and U+2029. The pattern \<open>.\<close> matches every code unit that is
  not one of the four line terminators, and \<open>\d\<close> the ten ASCII digits.
\<close>

type_synonym ustring = "16 word list"

definition is_line_terminator16 :: "16 word \<Rightarrow> bool" where
  "is_line_terminator16 c \<longleftrightarrow> c \<in> set [0x0A, 0x0D, 0x2028, 0x2029]"

definition is_space16 :: "16 word \<Rightarrow> bool" where
  "is_space16 c \<longleftrightarrow>
     c \<in> set [0x09, 0x0B, 0x0C, 0x20, 0xA0, 0x1680, 0x202F, 0x205F, 0x3000, 0xFEFF]
     \<or> (0x2000 \<le> c \<and> c \<le> 0x200A) \<or> is_line_terminator16 c"

definition digits16 :: ustring where
  "digits16 = [0x30, 0x31, 0x32, 0x33, 0x34, 0x35, 0x36, 0x37, 0x38, 0x39]"

definition is_digit16 :: "16 word \<Rightarrow> bool" where
  "is_digit16 c \<longleftrightarrow> c \<in> set digits16"

text \<open>\<open>s.trim()\<close>\<close>

definition trim16 :: "ustring \<Rightarrow> ustring" where
  "trim16 s = rev (dropWhile is_space16 (rev (dropWhile is_space16 s)))"

text \<open>\<open>s.split("\n")\<close>\<close>

fun split_lines16 :: "ustring \<Rightarrow> ustring list" where
  "split_lines16 [] = [[]]"
| "split_lines16 (c # cs) =
     (if c = 0x0A then [] # split_lines16 cs
      else (case split_lines16 cs of l # ls \<Rightarrow> (c # l) # ls | [] \<Rightarrow> [[c]]))"

text \<open>\<open>xs.join(sep)\<close>\<close>

fun join16 :: "ustring \<Rightarrow> ustring list \<Rightarrow> ustring" where
  "join16 sep [] = []"
| "join16 sep [x] = x"
| "join16 sep (x # y # ys) = x @ sep @ join16 sep (y # ys)"

text \<open>The decimal rendering of a counter.\<close>

function show_nat16 :: "nat \<Rightarrow> ustring" where
  "show_nat16 n =
     (if n < 10 then [digits16 ! n]
      else show_nat16 (n div 10) @ [digits16 ! (n mod 10)])"
  by pat_completeness auto
termination
  by (relation "measure id") auto

declare show_nat16.simps [simp del]

text \<open>\<open>\s{m,}(.+)$\<close>, as \<^const>\<open>spaces_then_rest\<close>.\<close>

definition dot_plus16 :: "ustring \<Rightarrow> bool" where
  "dot_plus16 s \<longleftrightarrow> s \<noteq> [] \<and> (\<forall>c \<in> set s. \<not> is_line_terminator16 c)"

definition spaces_then_rest16 :: "nat \<Rightarrow> ustring \<Rightarrow> ustring option" where
  "spaces_then_rest16 m s =
     (let w = length (takeWhile is_space16 s) in
      map_option (\<lambda>k. drop k s) (find (\<lambda>k. dot_plus16 (drop k s)) (rev [m ..< Suc w])))"

text \<open>\<open>\d+(?:\.\d+)*\<close> at the start of a string, as \<^const>\<open>dotted_number\<close>.\<close>

function dotted_tail16 :: "ustring \<Rightarrow> ustring \<times> ustring" where
  "dotted_tail16 s =
     (case s of
        [] \<Rightarrow> ([], s)
      | c # r \<Rightarrow>
          if c = 0x2E \<and> takeWhile is_digit16 r \<noteq> [] then
            (let (t, r') = dotted_tail16 (dropWhile is_digit16 r)
             in (c # takeWhile is_digit16 r @ t, r'))
          else ([], s))"
  by pat_completeness auto
termination
  by (relation "measure length") (auto simp: length_dropWhile_le less_Suc_eq_le)

declare dotted_tail16.simps [simp del]

definition dotted_number16 :: "ustring \<Rightarrow> (ustring \<times> ustring) option" where
  "dotted_number16 s =
     (if takeWhile is_digit16 s = [] then None
      else (let (t, r) = dotted_tail16 (dropWhile is_digit16 s)
            in Some (takeWhile is_digit16 s @ t, r)))"

text \<open>\<open>token.split(".").length\<close>\<close>

definition segments16 :: "ustring \<Rightarrow> nat" where
  "segments16 tok = Suc (length (filter (\<lambda>c. c = 0x2E) tok))"

record list_item16 =
  item_id16 :: ustring
  item_text16 :: ustring
  item_level16 :: int

datatype raw_item16 =
  ItemString16 ustring | ItemRecord16 "ustring option" "ustring option" "int option"

definition of_item16 :: "list_item16 \<Rightarrow> raw_item16" where
  "of_item16 it =
     ItemRecord16 (Some (item_id16 it)) (Some (item_text16 it)) (Some (item_level16 it))"

definition createListItem16 :: "(nat \<Rightarrow> ustring) \<Rightarrow> nat \<Rightarrow> ustring \<Rightarrow> int \<Rightarrow> list_item16" where
  "createListItem16 gen k txt lvl =
     \<lparr>item_id16 = gen k, item_text16 = txt, item_level16 = clamp_level (Some lvl)\<rparr>"

text \<open>\<open>/^(\d+(?:\.\d+)*)(?:\.)?\s+(.+)$/\<close>\<close>

definition match_numbered16 :: "ustring \<Rightarrow> (ustring \<times> ustring) option" where
  "match_numbered16 line =
     (case dotted_number16 line of
        None \<Rightarrow> None
      | Some (tok, r) \<Rightarrow>
          map_option (\<lambda>txt. (tok, txt))
            (spaces_then_rest16 1 (case r of c # r' \<Rightarrow> if c = 0x2E then r' else r | [] \<Rightarrow> r)))"

definition normalize_item16 :: "(nat \<Rightarrow> ustring) \<Rightarrow> nat \<Rightarrow> raw_item16 \<Rightarrow> list_item16" where
  "normalize_item16 gen k item =
     (case item of
        ItemString16 s \<Rightarrow> createListItem16 gen k s 1
      | ItemRecord16 i t l \<Rightarrow>
          \<lparr>item_id16 = (case i of None \<Rightarrow> gen k | Some s \<Rightarrow> if s = [] then gen k else s),
           item_text16 = (case t of None \<Rightarrow> [] | Some s \<Rightarrow> s),
           item_level16 = clamp_level l\<rparr>)"

definition item_of_line16 :: "(nat \<Rightarrow> ustring) \<Rightarrow> nat \<Rightarrow> ustring \<Rightarrow> list_item16" where
  "item_of_line16 gen k line =
     (case match_numbered16 line of
        Some (tok, txt) \<Rightarrow> createListItem16 gen k txt (int (segments16 tok))
      | None \<Rightarrow> createListItem16 gen k line 1)"

definition content_lines16 :: "ustring \<Rightarrow> ustring list" where
  "content_lines16 s = filter (\<lambda>l. l \<noteq> []) (map trim16 (split_lines16 s))"

definition normalizeListItems16 :: "(nat \<Rightarrow> ustring) \<Rightarrow> raw_item16 list \<Rightarrow> ustring \<Rightarrow> list_item16 list" where
  "normalizeListItems16 gen items fallbackContent =
     (if items \<noteq> [] then map (\<lambda>(k, item). normalize_item16 gen k item) (enumerate 0 items)
      else if content_lines16 fallbackContent \<noteq> []
      then map (\<lambda>(k, line). item_of_line16 gen k line) (enumerate 0 (content_lines16 fallbackContent))
      else [createListItem16 gen 0 [] 1])"

definition item_depth16 :: "list_item16 \<Rightarrow> nat" where
  "item_depth16 it = nat (max 1 (min 3 (item_level16 it)))"

definition token16 :: "nat \<Rightarrow> nat list \<Rightarrow> ustring" where
  "token16 l cs = join16 [0x2E] (map show_nat16 (take l cs))"

fun render_items16 :: "nat list \<Rightarrow> list_item16 list \<Rightarrow> ustring list" where
  "render_items16 cs [] = []"
| "render_items16 cs (it # its) =
     (let cs' = bump (item_depth16 it) cs
      in (if trim16 (item_text16 it) = [] then []
          else token16 (item_depth16 it) cs' @ [0x20] @ trim16 (item_text16 it))
         # render_items16 cs' its)"

definition formatNumberedList16 :: "(nat \<Rightarrow> ustring) \<Rightarrow> raw_item16 list \<Rightarrow> ustring" where
  "formatNumberedList16 gen items =
     join16 [0x0A]
       (filter (\<lambda>l. l \<noteq> []) (render_items16 [0, 0, 0] (normalizeListItems16 gen items [])))"

subsection \<open>Trimmed strings\<close>

definition trimmed16 :: "ustring \<Rightarrow> bool" where
  "trimmed16 s \<longleftrightarrow> s \<noteq> [] \<and> \<not> is_space16 (hd s) \<and> \<not> is_space16 (last s)"

lemma trim_trimmed16: "trimmed16 s \<Longrightarrow> trim16 s = s"
proof -
  assume t: "trimmed16 s"
  then have 1: "dropWhile is_space16 s = s" by (simp add: trimmed16_def dropWhile_hd_id)
  from t have "rev s \<noteq> []" "\<not> is_space16 (hd (rev s))" by (simp_all add: trimmed16_def hd_rev)
  then have "dropWhile is_space16 (rev s) = rev s" by (rule dropWhile_hd_id)
  with 1 show ?thesis by (simp add: trim16_def)
qed

lemma trimmed_trim16: "trim16 s \<noteq> [] \<Longrightarrow> trimmed16 (trim16 s)"
proof -
  assume a: "trim16 s \<noteq> []"
  let ?d = "dropWhile is_space16 s"
  have d: "?d \<noteq> []"
  proof
    assume e: "?d = []"
    have "trim16 s = []" unfolding trim16_def e by simp
    with a show False by simp
  qed
  have n: "dropWhile is_space16 (rev ?d) \<noteq> []" using a by (simp add: trim16_def)
  have l: "\<not> is_space16 (last (trim16 s))"
    using n unfolding trim16_def by (metis hd_dropWhile last_rev rev_rev_ident)
  have h0: "\<not> is_space16 (hd ?d)" using d by (rule hd_dropWhile)
  obtain ys zs where yz: "rev ?d = ys @ zs" "dropWhile is_space16 (rev ?d) = zs"
    by (metis takeWhile_dropWhile_id)
  then have "?d = rev zs @ rev ys" by (metis rev_append rev_rev_ident)
  moreover have "rev zs \<noteq> []" using yz n by simp
  ultimately have "hd (rev zs) = hd ?d" by simp
  then have h: "\<not> is_space16 (hd (trim16 s))" using h0 yz by (simp add: trim16_def)
  show ?thesis using a l h by (simp add: trimmed16_def)
qed

subsection \<open>Digits and tokens\<close>

lemma is_digit_nth16: "k < 10 \<Longrightarrow> is_digit16 (digits16 ! k)"
  unfolding is_digit16_def by (rule nth_mem) (simp add: digits16_def)

lemma show_nat_digits16: "show_nat16 n \<noteq> [] \<and> (\<forall>c \<in> set (show_nat16 n). is_digit16 c)"
proof (induction n rule: show_nat16.induct)
  case (1 n)
  show ?case
  proof (cases "n < 10")
    case True
    then show ?thesis by (subst show_nat16.simps, subst (2) show_nat16.simps) (simp add: is_digit_nth16)
  next
    case False
    then show ?thesis using 1 by (subst show_nat16.simps, subst (2) show_nat16.simps) (simp add: is_digit_nth16)
  qed
qed

lemma digit_not_dot16: "is_digit16 c \<Longrightarrow> c \<noteq> 0x2E"
  by (auto simp: is_digit16_def digits16_def)

lemma digit_not_space16: "is_digit16 c \<Longrightarrow> \<not> is_space16 c"
  by (auto simp: is_digit16_def digits16_def is_space16_def is_line_terminator16_def)

lemma digit_not_lf16: "is_digit16 c \<Longrightarrow> c \<noteq> 0x0A"
  by (auto simp: is_digit16_def digits16_def)

lemma takeWhile_show_nat16: "takeWhile is_digit16 (show_nat16 n @ r) = show_nat16 n @ takeWhile is_digit16 r"
  using show_nat_digits16 by (simp add: takeWhile_append2)

lemma dropWhile_show_nat16: "dropWhile is_digit16 (show_nat16 n @ r) = dropWhile is_digit16 r"
  using show_nat_digits16 by (simp add: dropWhile_append2)

lemma dotted_tail_stop16: "c \<noteq> 0x2E \<Longrightarrow> dotted_tail16 (c # r) = ([], c # r)"
  by (subst dotted_tail16.simps) simp

lemma not_digit_space16 [simp]: "\<not> is_digit16 0x20" "\<not> is_digit16 0x2E"
  by (simp_all add: is_digit16_def digits16_def)

lemma dotted_tail_dot16:
  "\<not> is_digit16 c \<Longrightarrow> dotted_tail16 (0x2E # show_nat16 n @ c # r)
     = (0x2E # show_nat16 n @ fst (dotted_tail16 (c # r)), snd (dotted_tail16 (c # r)))"
  using show_nat_digits16 [of n]
  by (subst dotted_tail16.simps)
     (simp add: takeWhile_show_nat16 dropWhile_show_nat16 split: prod.splits)

lemma dotted_number_show16:
  "\<not> is_digit16 c \<Longrightarrow> dotted_number16 (show_nat16 n @ c # r)
     = Some (show_nat16 n @ fst (dotted_tail16 (c # r)), snd (dotted_tail16 (c # r)))"
  using show_nat_digits16 [of n]
  by (simp add: dotted_number16_def takeWhile_show_nat16 dropWhile_show_nat16 split: prod.splits)

lemma token_cases16:
  "token16 (Suc 0) [a, b, c] = show_nat16 a"
  "token16 2 [a, b, c] = show_nat16 a @ [0x2E] @ show_nat16 b"
  "token16 3 [a, b, c] = show_nat16 a @ [0x2E] @ show_nat16 b @ [0x2E] @ show_nat16 c"
  by (simp_all add: token16_def numeral_2_eq_2 numeral_3_eq_3)

lemma count_dots_show16: "filter (\<lambda>c. c = 0x2E) (show_nat16 n) = []"
  using show_nat_digits16 [of n] by (auto simp: filter_empty_conv dest: digit_not_dot16)

lemma token_props16:
  assumes "1 \<le> d" "d \<le> 3" "length cs = 3"
  shows "dotted_number16 (token16 d cs @ 0x20 # t) = Some (token16 d cs, 0x20 # t)"
    and "segments16 (token16 d cs) = d"
    and "token16 d cs \<noteq> []"
    and "\<forall>c \<in> set (token16 d cs). is_digit16 c \<or> c = 0x2E"
    and "is_digit16 (hd (token16 d cs))"
proof -
  from assms(3) obtain a b c where cs: "cs = [a, b, c]" using length3 by blast
  from assms(1,2) have d: "d = 1 \<or> d = 2 \<or> d = 3" by (rule three_cases)
  show "dotted_number16 (token16 d cs @ 0x20 # t) = Some (token16 d cs, 0x20 # t)"
    using d unfolding cs
    by (auto simp: token_cases16 dotted_number_show16 dotted_tail_dot16 dotted_tail_stop16)
  show "segments16 (token16 d cs) = d"
    using d unfolding cs by (auto simp: token_cases16 segments16_def count_dots_show16)
  show "token16 d cs \<noteq> []"
    using d show_nat_digits16 unfolding cs by (auto simp: token_cases16)
  show "\<forall>c \<in> set (token16 d cs). is_digit16 c \<or> c = 0x2E"
    using d show_nat_digits16 unfolding cs by (auto simp: token_cases16)
  show "is_digit16 (hd (token16 d cs))"
    using d show_nat_digits16 [of a] unfolding cs by (cases "show_nat16 a") (auto simp: token_cases16)
qed

subsection \<open>Rendered lines are read back as they were written\<close>

lemma spaces_then_rest_one16:
  assumes "trimmed16 t" "\<forall>c \<in> set t. \<not> is_line_terminator16 c"
  shows "spaces_then_rest16 1 (0x20 # t) = Some t"
proof -
  from assms(1) obtain h t' where t: "t = h # t'" "\<not> is_space16 h"
    by (cases t) (auto simp: trimmed16_def)
  have w: "takeWhile is_space16 (0x20 # t) = [0x20]"
    using t by (simp add: is_space16_def)
  have "dot_plus16 t" using assms t by (simp add: dot_plus16_def)
  then show ?thesis by (simp only: spaces_then_rest16_def w Let_def) simp
qed

lemma item_of_line_rendered16:
  assumes "1 \<le> d" "d \<le> 3" "length cs = 3" "trimmed16 t" "\<forall>c \<in> set t. \<not> is_line_terminator16 c"
  shows "item_of_line16 gen k (token16 d cs @ [0x20] @ t)
           = \<lparr>item_id16 = gen k, item_text16 = t, item_level16 = int d\<rparr>"
  using assms token_props16(1,2) [OF assms(1-3)] spaces_then_rest_one16 [OF assms(4,5)]
  by (simp add: item_of_line16_def match_numbered16_def createListItem16_def clamp_level_depth)

lemma rendered_trimmed16:
  assumes "1 \<le> d" "d \<le> 3" "length cs = 3" "trimmed16 t"
  shows "trimmed16 (token16 d cs @ [0x20] @ t)"
proof -
  from token_props16(3,5) [OF assms(1-3)] obtain h r where hr: "token16 d cs = h # r" "is_digit16 h"
    by (cases "token16 d cs") auto
  from assms(4) have "t \<noteq> []" "\<not> is_space16 (last t)" by (simp_all add: trimmed16_def)
  then show ?thesis using hr by (simp add: trimmed16_def digit_not_space16)
qed

lemma rendered_no_lf16:
  assumes "1 \<le> d" "d \<le> 3" "length cs = 3" "\<forall>c \<in> set t. \<not> is_line_terminator16 c"
  shows "0x0A \<notin> set (token16 d cs @ [0x20] @ t)"
  using token_props16(4) [OF assms(1-3)] assms(4)
  by (auto simp: is_line_terminator16_def dest: digit_not_lf16)

lemma split_lines_not_Nil16: "split_lines16 s \<noteq> []"
  by (induction s) (auto split: list.splits)

lemma split_lines_single16: "0x0A \<notin> set s \<Longrightarrow> split_lines16 s = [s]"
  by (induction s) auto

lemma split_lines_append16:
  "0x0A \<notin> set l \<Longrightarrow> split_lines16 (l @ 0x0A # r) = l # split_lines16 r"
  by (induction l) auto

lemma split_lines_join16:
  "L \<noteq> [] \<Longrightarrow> \<forall>l \<in> set L. 0x0A \<notin> set l \<Longrightarrow> split_lines16 (join16 [0x0A] L) = L"
proof (induction "[0x0A :: 16 word]" L rule: join16.induct)
  case 1
  then show ?case by simp
next
  case (2 x)
  then show ?case by (simp add: split_lines_single16)
next
  case (3 x y ys)
  then show ?case by (simp add: split_lines_append16)
qed

lemma content_lines_join16:
  assumes "\<forall>l \<in> set L. 0x0A \<notin> set l \<and> trimmed16 l"
  shows "content_lines16 (join16 [0x0A] L) = L"
proof (cases "L = []")
  case True
  then show ?thesis by (simp add: content_lines16_def trim16_def)
next
  case False
  then have "split_lines16 (join16 [0x0A] L) = L" using assms by (simp add: split_lines_join16)
  moreover have "map trim16 L = L" using assms by (simp add: map_idI trim_trimmed16)
  moreover have "filter (\<lambda>l. l \<noteq> []) L = L" using assms by (auto simp: trimmed16_def)
  ultimately show ?thesis by (simp add: content_lines16_def)
qed

lemma item_depth_range16: "1 \<le> item_depth16 it \<and> item_depth16 it \<le> 3"
  unfolding item_depth16_def by linarith

definition plain_item16 :: "list_item16 \<Rightarrow> bool" where
  "plain_item16 it \<longleftrightarrow>
     trim16 (item_text16 it) \<noteq> [] \<and> (\<forall>c \<in> set (trim16 (item_text16 it)). \<not> is_line_terminator16 c)"

lemma render_items_plain16:
  assumes "length cs = 3" "\<forall>it \<in> set its. plain_item16 it"
  shows "(\<forall>l \<in> set (render_items16 cs its). 0x0A \<notin> set l \<and> trimmed16 l)
    \<and> map (\<lambda>(k, line). item_of_line16 gen k line) (enumerate n (render_items16 cs its))
        = map (\<lambda>(k, it). \<lparr>item_id16 = gen k, item_text16 = trim16 (item_text16 it),
                            item_level16 = int (item_depth16 it)\<rparr>) (enumerate n its)"
  using assms
proof (induction its arbitrary: cs n)
  case Nil
  then show ?case by simp
next
  case (Cons it its)
  let ?d = "item_depth16 it" and ?cs = "bump (item_depth16 it) cs" and ?t = "trim16 (item_text16 it)"
  have d: "1 \<le> ?d" "?d \<le> 3" using item_depth_range16 by auto
  have l: "length ?cs = 3" using Cons.prems(1) by (simp add: length_bump)
  have p: "?t \<noteq> []" "\<forall>c \<in> set ?t. \<not> is_line_terminator16 c"
    using Cons.prems(2) by (auto simp: plain_item16_def)
  have t: "trimmed16 ?t" using p(1) by (rule trimmed_trim16)
  note ih = Cons.IH [OF l, of "Suc n"]
  have r: "render_items16 cs (it # its) = (token16 ?d ?cs @ [0x20] @ ?t) # render_items16 ?cs its"
    using p(1) by (simp add: Let_def)
  show ?case
    unfolding r
    using ih Cons.prems(2) rendered_trimmed16 [OF d l t] rendered_no_lf16 [OF d l p(2)]
      item_of_line_rendered16 [OF d l t p(2), of gen n]
    by simp
qed

lemma render_items_cong16:
  "list_all2 (\<lambda>a b. item_depth16 a = item_depth16 b \<and> trim16 (item_text16 a) = trim16 (item_text16 b)) xs ys
   \<Longrightarrow> render_items16 cs xs = render_items16 cs ys"
  by (induction xs ys arbitrary: cs rule: list_all2_induct) (auto simp: Let_def)

lemma trim_idem16: "trim16 (trim16 s) = trim16 s"
proof (cases "trim16 s = []")
  case True
  have "trim16 [] = []" by (simp add: trim16_def)
  then show ?thesis by (simp only: True)
next
  case False
  then show ?thesis by (simp add: trimmed_trim16 trim_trimmed16)
qed

lemma item_depth_clamp16:
  "item_depth16 \<lparr>item_id16 = i, item_text16 = t, item_level16 = clamp_level l\<rparr>
     = nat (clamp_level l)"
  by (auto simp: item_depth16_def clamp_level_def)

lemma item_depth_int16:
  "1 \<le> d \<Longrightarrow> d \<le> 3
     \<Longrightarrow> item_depth16 \<lparr>item_id16 = i, item_text16 = t, item_level16 = int d\<rparr> = d"
  by (simp add: item_depth16_def)

lemma render_filter_plain16:
  assumes "length cs = 3" "\<forall>it \<in> set its. plain_item16 it"
  shows "filter (\<lambda>l. l \<noteq> []) (render_items16 cs its) = render_items16 cs its"
  using render_items_plain16 [OF assms] by (auto simp: trimmed16_def)

lemma normalizeListItems_items16:
  "items \<noteq> [] \<Longrightarrow> normalizeListItems16 gen items fb
     = map (\<lambda>(k, item). normalize_item16 gen k item) (enumerate 0 items)"
  by (simp add: normalizeListItems16_def)

lemma normalizeListItems_fallback16:
  "content_lines16 fb \<noteq> [] \<Longrightarrow> normalizeListItems16 gen [] fb
     = map (\<lambda>(k, line). item_of_line16 gen k line) (enumerate 0 (content_lines16 fb))"
  by (simp add: normalizeListItems16_def)

subsection \<open>The round trip\<close>

definition sample_gen16 :: "nat \<Rightarrow> ustring" where
  "sample_gen16 k = [0x6C, 0x69, 0x2D] @ show_nat16 k"

text \<open>
  C3, as the code has it: for every list of items in which the trimmed text of every item is
  not empty and has no line terminator (LF, CR, U+2028 or U+2029) in it, rendering the list,
  reading the items back from the rendered text with an empty item sequence, and rendering
  again gives the same text. The texts are arbitrary strings of UTF-16 code units otherwise.
  The levels need no hypothesis: the rendering clamps them. The identifiers play no role, so
  each of the three calls may draw its own.
\<close>

theorem round_trip_plain_texts:
  assumes "\<forall>it \<in> set items. plain_item16 it"
  shows "formatNumberedList16 gen3
           (map of_item16 (normalizeListItems16 gen2 [] (formatNumberedList16 gen1 (map of_item16 items))))
         = formatNumberedList16 gen1 (map of_item16 items)"
proof (cases "items = []")
  case True
  have c: "content_lines16 [] = []" by (simp add: content_lines16_def trim16_def)
  have t: "trim16 [] = []" by (simp add: trim16_def)
  show ?thesis
    by (simp add: True formatNumberedList16_def normalizeListItems16_def c t createListItem16_def
        of_item16_def normalize_item16_def)
next
  case False
  define its where "its = normalizeListItems16 gen1 (map of_item16 items) []"
  define L where "L = render_items16 [0, 0, 0] its"
  have its: "its = map (\<lambda>(k, item). normalize_item16 gen1 k item) (enumerate 0 (map of_item16 items))"
    unfolding its_def using False by (simp add: normalizeListItems_items16)
  have len: "length its = length items" by (simp add: its)
  have nth: "item_text16 (its ! i) = item_text16 (items ! i)" if "i < length items" for i
    using that by (simp add: its nth_enumerate_eq normalize_item16_def of_item16_def)
  have plain: "\<forall>it \<in> set its. plain_item16 it"
  proof
    fix it assume "it \<in> set its"
    then obtain i where i: "i < length items" "it = its ! i"
      using len by (metis in_set_conv_nth)
    then have "plain_item16 (items ! i)" using assms by simp
    then show "plain_item16 it" using nth [OF i(1)] i(2) by (simp add: plain_item16_def)
  qed
  have three: "length [0::nat, 0, 0] = 3" by simp
  note rp = render_items_plain16 [OF three plain, of gen2 0, folded L_def]
  have fmt1: "formatNumberedList16 gen1 (map of_item16 items) = join16 [0x0A] L"
    using render_filter_plain16 [OF three plain]
    by (simp add: formatNumberedList16_def its_def [symmetric] L_def)
  have cl: "content_lines16 (join16 [0x0A] L) = L"
    using rp by (intro content_lines_join16) blast
  have "its \<noteq> []" using False len by auto
  then have Lne: "L \<noteq> []"
    unfolding L_def by (cases its) (auto simp: Let_def)
  define its2 where "its2 = normalizeListItems16 gen2 [] (join16 [0x0A] L)"
  have its2: "its2 = map (\<lambda>(k, it). \<lparr>item_id16 = gen2 k, item_text16 = trim16 (item_text16 it),
                            item_level16 = int (item_depth16 it)\<rparr>) (enumerate 0 its)"
    unfolding its2_def using rp Lne by (simp add: normalizeListItems_fallback16 cl)
  have len2: "length its2 = length its" by (simp add: its2)
  define its3 where "its3 = normalizeListItems16 gen3 (map of_item16 its2) []"
  have its3: "its3 = map (\<lambda>(k, item). normalize_item16 gen3 k item) (enumerate 0 (map of_item16 its2))"
  proof -
    have "its2 \<noteq> []" using \<open>its \<noteq> []\<close> len2 by auto
    then show ?thesis unfolding its3_def by (simp add: normalizeListItems_items16)
  qed
  have rel: "list_all2 (\<lambda>a b. item_depth16 a = item_depth16 b \<and> trim16 (item_text16 a) = trim16 (item_text16 b))
               its3 its"
  proof (rule list_all2_all_nthI)
    show "length its3 = length its" by (simp add: its3 its2)
  next
    fix i assume "i < length its3"
    then have i: "i < length its" by (simp add: its3 its2)
    have d: "1 \<le> item_depth16 (its ! i)" "item_depth16 (its ! i) \<le> 3"
      using item_depth_range16 by auto
    have "its3 ! i = normalize_item16 gen3 i (of_item16 \<lparr>item_id16 = gen2 i,
             item_text16 = trim16 (item_text16 (its ! i)), item_level16 = int (item_depth16 (its ! i))\<rparr>)"
      using i by (simp add: its3 its2 nth_enumerate_eq)
    then show "item_depth16 (its3 ! i) = item_depth16 (its ! i)
        \<and> trim16 (item_text16 (its3 ! i)) = trim16 (item_text16 (its ! i))"
      using d by (simp add: normalize_item16_def of_item16_def clamp_level_depth item_depth_int16 trim_idem16)
  qed
  have "render_items16 [0, 0, 0] its3 = L" unfolding L_def using rel by (rule render_items_cong16)
  then have "formatNumberedList16 gen3 (map of_item16 its2) = join16 [0x0A] L"
    using render_filter_plain16 [OF three plain]
    by (simp add: formatNumberedList16_def its3_def [symmetric] L_def)
  then show ?thesis
    unfolding fmt1 its2_def by simp
qed

theorem round_trip_plain_texts_witness:
  "plain_item16 \<lparr>item_id16 = [0x69, 0x31], item_text16 = [0x61], item_level16 = 1\<rparr>
   \<and> plain_item16 \<lparr>item_id16 = [0x69, 0x32], item_text16 = [0x2003, 0x62, 0xE9, 0x20],
                     item_level16 = 2\<rparr>
   \<and> formatNumberedList16 sample_gen16
        (map of_item16 (normalizeListItems16 sample_gen16 []
           (formatNumberedList16 sample_gen16
              (map of_item16
                 [\<lparr>item_id16 = [0x69, 0x31], item_text16 = [0x61], item_level16 = 1\<rparr>,
                  \<lparr>item_id16 = [0x69, 0x32], item_text16 = [0x2003, 0x62, 0xE9, 0x20],
                    item_level16 = 2\<rparr>]))))
      = [0x31, 0x20, 0x61, 0x0A, 0x31, 0x2E, 0x31, 0x20, 0x62, 0xE9]"
proof -
  let ?items = "[\<lparr>item_id16 = [0x69, 0x31], item_text16 = [0x61], item_level16 = 1\<rparr>,
                 \<lparr>item_id16 = [0x69, 0x32], item_text16 = [0x2003, 0x62, 0xE9, 0x20],
                   item_level16 = 2\<rparr>]"
  have p: "\<forall>it \<in> set ?items. plain_item16 it"
    by (simp add: plain_item16_def trim16_def is_space16_def is_line_terminator16_def)
  have f: "formatNumberedList16 sample_gen16 (map of_item16 ?items)
      = [0x31, 0x20, 0x61, 0x0A, 0x31, 0x2E, 0x31, 0x20, 0x62, 0xE9]"
    by code_simp
  from round_trip_plain_texts [OF p, of sample_gen16 sample_gen16 sample_gen16] p f
  show ?thesis by simp
qed

text \<open>One item of level 1 with a given text.\<close>

definition lone_item16 :: "ustring \<Rightarrow> raw_item16 list" where
  "lone_item16 t =
     map of_item16 [\<lparr>item_id16 = [0x69, 0x31], item_text16 = t, item_level16 = 1\<rparr>]"

text \<open>
  C3 as stated fails on a well-formed list with a blank item: the items "a", "" and "b" of
  level 1 render as "1 a", "3 b"; read back, the two lines are two items, which render as
  "1 a", "2 b". It also fails on a text with a line terminator inside: the one item of
  level 1 whose text is a, U+2028, b renders as "1 " and that text; read back, the line does
  not match the pattern of a numbered line, since \<open>.\<close> does not match U+2028, so the whole
  line is the text of the item, which renders as "1 1 " and the text. The same happens with CR
  and U+2029 in the place of U+2028; with LF the rendered text is read back as two items.
\<close>

theorem round_trip_counterexample:
  "formatNumberedList16 sample_gen16
     (map of_item16 (normalizeListItems16 sample_gen16 []
        (formatNumberedList16 sample_gen16
           (map of_item16
              [\<lparr>item_id16 = [0x69, 0x31], item_text16 = [0x61], item_level16 = 1\<rparr>,
               \<lparr>item_id16 = [0x69, 0x32], item_text16 = [], item_level16 = 1\<rparr>,
               \<lparr>item_id16 = [0x69, 0x33], item_text16 = [0x62], item_level16 = 1\<rparr>]))))
     \<noteq> formatNumberedList16 sample_gen16
        (map of_item16
           [\<lparr>item_id16 = [0x69, 0x31], item_text16 = [0x61], item_level16 = 1\<rparr>,
            \<lparr>item_id16 = [0x69, 0x32], item_text16 = [], item_level16 = 1\<rparr>,
            \<lparr>item_id16 = [0x69, 0x33], item_text16 = [0x62], item_level16 = 1\<rparr>])
   \<and> formatNumberedList16 sample_gen16
        (map of_item16 (normalizeListItems16 sample_gen16 []
           (formatNumberedList16 sample_gen16 (lone_item16 [0x61, 0x2028, 0x62]))))
     \<noteq> formatNumberedList16 sample_gen16 (lone_item16 [0x61, 0x2028, 0x62])
   \<and> formatNumberedList16 sample_gen16
        (map of_item16 (normalizeListItems16 sample_gen16 []
           (formatNumberedList16 sample_gen16 (lone_item16 [0x61, 0x2029, 0x62]))))
     \<noteq> formatNumberedList16 sample_gen16 (lone_item16 [0x61, 0x2029, 0x62])
   \<and> formatNumberedList16 sample_gen16
        (map of_item16 (normalizeListItems16 sample_gen16 []
           (formatNumberedList16 sample_gen16 (lone_item16 [0x61, 0x0D, 0x62]))))
     \<noteq> formatNumberedList16 sample_gen16 (lone_item16 [0x61, 0x0D, 0x62])
   \<and> formatNumberedList16 sample_gen16
        (map of_item16 (normalizeListItems16 sample_gen16 []
           (formatNumberedList16 sample_gen16 (lone_item16 [0x61, 0x0A, 0x62]))))
     \<noteq> formatNumberedList16 sample_gen16 (lone_item16 [0x61, 0x0A, 0x62])
   \<and> formatNumberedList16 sample_gen16 (lone_item16 [0x61, 0x2028, 0x62])
     = [0x31, 0x20, 0x61, 0x2028, 0x62]
   \<and> formatNumberedList16 sample_gen16
        (map of_item16 (normalizeListItems16 sample_gen16 []
           (formatNumberedList16 sample_gen16 (lone_item16 [0x61, 0x2028, 0x62]))))
     = [0x31, 0x20, 0x31, 0x20, 0x61, 0x2028, 0x62]"
  by code_simp

subsection \<open>Blank items and the numbering\<close>

lemma length_render_items16: "length (render_items16 cs its) = length its"
  by (induction its arbitrary: cs) (simp_all add: Let_def)

text \<open>The line of an item carries the counters as all the items up to it have moved them,
  the blank ones among them too.\<close>

lemma render_items16_nth:
  "k < length its \<Longrightarrow> render_items16 cs its ! k
     = (if trim16 (item_text16 (its ! k)) = [] then []
        else token16 (item_depth16 (its ! k))
               (fold bump (map item_depth16 (take (Suc k) its)) cs)
             @ [0x20] @ trim16 (item_text16 (its ! k)))"
proof (induction its arbitrary: cs k)
  case Nil
  then show ?case by simp
next
  case (Cons it its)
  show ?case
  proof (cases k)
    case 0
    then show ?thesis by (simp add: Let_def)
  next
    case (Suc j)
    then have "j < length its" using Cons.prems by simp
    from Cons.IH [OF this, of "bump (item_depth16 it) cs"] Suc show ?thesis
      by (simp add: Let_def)
  qed
qed

lemma filter_by_index:
  "filter P xs = map (\<lambda>k. xs ! k) (filter (\<lambda>k. P (xs ! k)) [0 ..< length xs])"
proof -
  have "filter P (map (\<lambda>k. xs ! k) [0 ..< length xs])
      = map (\<lambda>k. xs ! k) (filter (\<lambda>k. P (xs ! k)) [0 ..< length xs])"
    by (simp add: filter_map comp_def)
  then show ?thesis by (simp add: map_nth)
qed

lemma rendered_lines16:
  "filter (\<lambda>l. l \<noteq> []) (render_items16 cs its)
     = map (\<lambda>k. token16 (item_depth16 (its ! k))
                   (fold bump (map item_depth16 (take (Suc k) its)) cs)
                 @ [0x20] @ trim16 (item_text16 (its ! k)))
         (filter (\<lambda>k. trim16 (item_text16 (its ! k)) \<noteq> []) [0 ..< length its])"
proof -
  let ?L = "render_items16 cs its"
  have blank: "?L ! k \<noteq> [] \<longleftrightarrow> trim16 (item_text16 (its ! k)) \<noteq> []" if "k < length its" for k
    using render_items16_nth [OF that, of cs] by simp
  have "filter (\<lambda>k. ?L ! k \<noteq> []) [0 ..< length its]
      = filter (\<lambda>k. trim16 (item_text16 (its ! k)) \<noteq> []) [0 ..< length its]"
    by (rule filter_cong) (simp_all add: blank)
  moreover have "map (\<lambda>k. ?L ! k)
        (filter (\<lambda>k. trim16 (item_text16 (its ! k)) \<noteq> []) [0 ..< length its])
      = map (\<lambda>k. token16 (item_depth16 (its ! k))
                   (fold bump (map item_depth16 (take (Suc k) its)) cs)
                 @ [0x20] @ trim16 (item_text16 (its ! k)))
        (filter (\<lambda>k. trim16 (item_text16 (its ! k)) \<noteq> []) [0 ..< length its])"
    by (rule map_cong) (simp_all add: render_items16_nth)
  ultimately show ?thesis
    using filter_by_index [of "\<lambda>l. l \<noteq> []" ?L] by (simp add: length_render_items16)
qed

lemma bump_one: "bump (Suc 0) [a, b, c] = [Suc a, 0, 0]"
  by (simp add: bump_def upt_rec)

lemma fold_bump_ones: "fold bump (replicate n (Suc 0)) [a, 0, 0] = [a + n, 0, 0]"
  by (induction n arbitrary: a) (simp_all add: bump_one)

lemma level_one_items16:
  "normalizeListItems16 gen (map (\<lambda>(i, t). ItemRecord16 i (Some t) (Some 1)) xs) [] = its
   \<Longrightarrow> xs \<noteq> []
   \<Longrightarrow> length its = length xs
       \<and> (\<forall>k < length xs. item_text16 (its ! k) = snd (xs ! k) \<and> item_depth16 (its ! k) = Suc 0)"
  by (auto simp: normalizeListItems16_def normalize_item16_def nth_enumerate_eq clamp_level_def
      item_depth16_def split: prod.splits)

lemma format_level_one16:
  "formatNumberedList16 gen (map (\<lambda>(i, t). ItemRecord16 i (Some t) (Some 1)) xs)
     = join16 [0x0A]
         (map (\<lambda>k. show_nat16 (Suc k) @ [0x20] @ trim16 (snd (xs ! k)))
            (filter (\<lambda>k. trim16 (snd (xs ! k)) \<noteq> []) [0 ..< length xs]))"
proof (cases "xs = []")
  case True
  have c: "content_lines16 [] = []" by (simp add: content_lines16_def trim16_def)
  have t: "trim16 [] = []" by (simp add: trim16_def)
  show ?thesis
    by (simp add: True formatNumberedList16_def normalizeListItems16_def c t createListItem16_def)
next
  case False
  define its where
    "its = normalizeListItems16 gen (map (\<lambda>(i, t). ItemRecord16 i (Some t) (Some 1)) xs) []"
  note l = level_one_items16 [OF its_def [symmetric] False]
  have len: "length its = length xs" using l by simp
  have texts: "item_text16 (its ! k) = snd (xs ! k)"
    and dep: "item_depth16 (its ! k) = Suc 0" if "k < length xs" for k
    using that l by auto
  have all: "\<forall>it \<in> set its. item_depth16 it = Suc 0"
    using len dep by (auto simp: in_set_conv_nth)
  have ones: "map item_depth16 (take (Suc k) its) = replicate (Suc k) (Suc 0)"
    if "k < length xs" for k
  proof (rule replicate_eqI)
    show "length (map item_depth16 (take (Suc k) its)) = Suc k" using that len by simp
    fix y assume "y \<in> set (map item_depth16 (take (Suc k) its))"
    then show "y = Suc 0" using all by (auto dest: in_set_takeD)
  qed
  have tok: "token16 (item_depth16 (its ! k))
         (fold bump (map item_depth16 (take (Suc k) its)) [0, 0, 0]) = show_nat16 (Suc k)"
    if "k < length xs" for k
    using fold_bump_ones [of "Suc k" 0] by (simp add: ones [OF that] dep [OF that] token16_def)
  have f: "filter (\<lambda>k. trim16 (item_text16 (its ! k)) \<noteq> []) [0 ..< length xs]
      = filter (\<lambda>k. trim16 (snd (xs ! k)) \<noteq> []) [0 ..< length xs]"
    by (rule filter_cong) (simp_all add: texts)
  have m: "map (\<lambda>k. token16 (item_depth16 (its ! k))
                   (fold bump (map item_depth16 (take (Suc k) its)) [0, 0, 0])
                 @ [0x20] @ trim16 (item_text16 (its ! k)))
          (filter (\<lambda>k. trim16 (snd (xs ! k)) \<noteq> []) [0 ..< length xs])
      = map (\<lambda>k. show_nat16 (Suc k) @ [0x20] @ trim16 (snd (xs ! k)))
          (filter (\<lambda>k. trim16 (snd (xs ! k)) \<noteq> []) [0 ..< length xs])"
    by (rule map_cong) (simp_all add: tok texts)
  show ?thesis
    unfolding formatNumberedList16_def its_def [symmetric] rendered_lines16 len f m ..
qed

text \<open>
  C10: an item whose trimmed text is empty still moves the counters before it is left out of
  the rendering, so the numbering of the items after it skips over it. For every list of items,
  the rendering is made of the lines of the items whose trimmed text is not empty, and the line
  of an item carries the counters as the levels of all the items up to it, blank or not, have
  moved them. For every list of items of level 1, the number on the line of an item is
  therefore its position among all the items. The three level-1 items with the texts "a", ""
  and "b" render as "1 a" and "3 b", not as "1 a" and "2 b".
\<close>

theorem formatNumberedList_blank_item_counts:
  "formatNumberedList16 gen items
     = join16 [0x0A]
         (map (\<lambda>k. token16 (item_depth16 (normalizeListItems16 gen items [] ! k))
                       (fold bump (map item_depth16
                                     (take (Suc k) (normalizeListItems16 gen items []))) [0, 0, 0])
                     @ [0x20] @ trim16 (item_text16 (normalizeListItems16 gen items [] ! k)))
            (filter (\<lambda>k. trim16 (item_text16 (normalizeListItems16 gen items [] ! k)) \<noteq> [])
               [0 ..< length (normalizeListItems16 gen items [])]))
   \<and> formatNumberedList16 gen (map (\<lambda>(i, t). ItemRecord16 i (Some t) (Some 1)) xs)
     = join16 [0x0A]
         (map (\<lambda>k. show_nat16 (Suc k) @ [0x20] @ trim16 (snd (xs ! k)))
            (filter (\<lambda>k. trim16 (snd (xs ! k)) \<noteq> []) [0 ..< length xs]))
   \<and> formatNumberedList16 gen
        [ItemRecord16 (Some [0x69, 0x31]) (Some [0x61]) (Some 1),
         ItemRecord16 (Some [0x69, 0x32]) (Some []) (Some 1),
         ItemRecord16 (Some [0x69, 0x33]) (Some [0x62]) (Some 1)]
     = [0x31, 0x20, 0x61, 0x0A, 0x33, 0x20, 0x62]
   \<and> formatNumberedList16 gen
        [ItemRecord16 (Some [0x69, 0x31]) (Some [0x61]) (Some 1),
         ItemRecord16 (Some [0x69, 0x32]) (Some []) (Some 1),
         ItemRecord16 (Some [0x69, 0x33]) (Some [0x62]) (Some 1)]
     \<noteq> [0x31, 0x20, 0x61, 0x0A, 0x32, 0x20, 0x62]"
proof (intro conjI)
  show "formatNumberedList16 gen items
     = join16 [0x0A]
         (map (\<lambda>k. token16 (item_depth16 (normalizeListItems16 gen items [] ! k))
                       (fold bump (map item_depth16
                                     (take (Suc k) (normalizeListItems16 gen items []))) [0, 0, 0])
                     @ [0x20] @ trim16 (item_text16 (normalizeListItems16 gen items [] ! k)))
            (filter (\<lambda>k. trim16 (item_text16 (normalizeListItems16 gen items [] ! k)) \<noteq> [])
               [0 ..< length (normalizeListItems16 gen items [])]))"
    unfolding formatNumberedList16_def rendered_lines16 ..
  show "formatNumberedList16 gen (map (\<lambda>(i, t). ItemRecord16 i (Some t) (Some 1)) xs)
     = join16 [0x0A]
         (map (\<lambda>k. show_nat16 (Suc k) @ [0x20] @ trim16 (snd (xs ! k)))
            (filter (\<lambda>k. trim16 (snd (xs ! k)) \<noteq> []) [0 ..< length xs]))"
    by (rule format_level_one16)
  have e: "formatNumberedList16 gen
        [ItemRecord16 (Some [0x69, 0x31]) (Some [0x61]) (Some 1),
         ItemRecord16 (Some [0x69, 0x32]) (Some []) (Some 1),
         ItemRecord16 (Some [0x69, 0x33]) (Some [0x62]) (Some 1)]
     = [0x31, 0x20, 0x61, 0x0A, 0x33, 0x20, 0x62]"
    using format_level_one16 [of gen "[(Some [0x69, 0x31], [0x61]), (Some [0x69, 0x32], []),
        (Some [0x69, 0x33], [0x62])]"]
    by (simp add: upt_rec trim16_def is_space16_def is_line_terminator16_def
        show_nat16.simps digits16_def)
  then show "formatNumberedList16 gen
        [ItemRecord16 (Some [0x69, 0x31]) (Some [0x61]) (Some 1),
         ItemRecord16 (Some [0x69, 0x32]) (Some []) (Some 1),
         ItemRecord16 (Some [0x69, 0x33]) (Some [0x62]) (Some 1)]
     = [0x31, 0x20, 0x61, 0x0A, 0x33, 0x20, 0x62]" .
  from e show "formatNumberedList16 gen
        [ItemRecord16 (Some [0x69, 0x31]) (Some [0x61]) (Some 1),
         ItemRecord16 (Some [0x69, 0x32]) (Some []) (Some 1),
         ItemRecord16 (Some [0x69, 0x33]) (Some [0x62]) (Some 1)]
     \<noteq> [0x31, 0x20, 0x61, 0x0A, 0x32, 0x20, 0x62]"
    by simp
qed


section \<open>Maps and sorting of the runtime\<close>

text \<open>
  A \<open>Map\<close> is an association list with one entry per key, in insertion order:
  \<open>m.get(k)\<close> is \<^term>\<open>map_of m k\<close>, \<open>m.has(k)\<close> is \<^term>\<open>map_of m k \<noteq> None\<close>,
  and \<open>m.set(k, v)\<close> is \<^const>\<open>AList.update\<close>, which replaces the value of a key that is
  present where it stands and puts a new key at the end. \<open>new Map(entries)\<close> sets the
  entries one after the other.
\<close>

definition new_map :: "('k \<times> 'v) list \<Rightarrow> ('k \<times> 'v) list" where
  "new_map entries = fold (\<lambda>(k, v) m. AList.update k v m) entries []"

text \<open>\<open>m.get(k) ?? 0\<close>\<close>

definition get0 :: "('k \<times> 'v::zero) list \<Rightarrow> 'k \<Rightarrow> 'v" where
  "get0 m k = (case map_of m k of None \<Rightarrow> 0 | Some v \<Rightarrow> v)"

text \<open>\<open>outgoing.get(id) ?? []\<close>\<close>

definition targets_of :: "('k \<times> 'v list) list \<Rightarrow> 'k \<Rightarrow> 'v list" where
  "targets_of m k = (case map_of m k of None \<Rightarrow> [] | Some ts \<Rightarrow> ts)"

text \<open>
  \<open>xs.sort(compare)\<close>, as a stable insertion sort: an element goes in front of the first
  element that it does not compare greater than. For a consistent comparator every stable sort
  gives this result; for an inconsistent one the standard leaves the order to the
  implementation, and this is one such order.
\<close>

fun insert_by :: "('a \<Rightarrow> 'a \<Rightarrow> real) \<Rightarrow> 'a \<Rightarrow> 'a list \<Rightarrow> 'a list" where
  "insert_by compare a [] = [a]"
| "insert_by compare a (b # bs) =
     (if compare a b \<le> 0 then a # b # bs else b # insert_by compare a bs)"

definition js_sort :: "('a \<Rightarrow> 'a \<Rightarrow> real) \<Rightarrow> 'a list \<Rightarrow> 'a list" where
  "js_sort compare xs = foldr (insert_by compare) xs []"

section \<open>Graph validator\<close>

text \<open>
  The candidate graph is typed: the root is an object, \<open>nodes\<close> and \<open>edges\<close> are arrays,
  and the fields of nodes and edges are strings, so the checks of \<open>typeof\<close> and
  \<open>Array.isArray\<close> hold by typing. A missing identifier is the empty string, which the
  validator rejects like a missing one. The result \<open>null\<close> is \<^const>\<open>None\<close>; a rejection
  is its message.
\<close>

record vstate =
  nodeIds :: "string list"
  degree :: "(string \<times> int) list"
  indegree :: "(string \<times> int) list"
  outgoing :: "(string \<times> string list) list"

definition quoted :: "string \<Rightarrow> string" where
  "quoted s = [CHR 0x27] @ s @ [CHR 0x27]"

definition validRoles :: "string list" where
  "validRoles = [''system'', ''user'', ''assistant'']"

fun check_nodes :: "vstate \<Rightarrow> gnode list \<Rightarrow> string + vstate" where
  "check_nodes st [] = Inr st"
| "check_nodes st (n # ns) =
     (if node_id n = [] then Inl ''Invalid node: every node must have a string `id`.''
      else if node_id n \<in> set (nodeIds st)
      then Inl (''Invalid flow: duplicate node id '' @ quoted (node_id n) @ ''.'')
      else if role n \<notin> set validRoles
      then Inl (''Invalid node '' @ quoted (node_id n) @ '': role must be system, user, or assistant.'')
      else if trim (content n) = []
      then Inl (''Invalid node '' @ quoted (node_id n) @ '': content cannot be empty.'')
      else check_nodes
             \<lparr>nodeIds = nodeIds st @ [node_id n],
              degree = AList.update (node_id n) 0 (degree st),
              indegree = AList.update (node_id n) 0 (indegree st),
              outgoing = AList.update (node_id n) [] (outgoing st)\<rparr> ns)"

fun check_edges :: "vstate \<Rightarrow> gedge list \<Rightarrow> string + vstate" where
  "check_edges st [] = Inr st"
| "check_edges st (e # es) =
     (if from_id e = [] \<or> to_id e = []
      then Inl ''Invalid edge: each edge must include string `from` and `to`.''
      else if from_id e \<notin> set (nodeIds st) \<or> to_id e \<notin> set (nodeIds st)
      then Inl (''Invalid edge: '' @ quoted (from_id e) @ '' -> '' @ quoted (to_id e)
                @ '' references missing node ids.'')
      else if from_id e = to_id e
      then Inl (''Invalid edge: self-loop found on '' @ quoted (from_id e) @ ''.'')
      else
        (let degree1 = AList.update (from_id e) (get0 (degree st) (from_id e) + 1) (degree st)
         in check_edges
              \<lparr>nodeIds = nodeIds st,
               degree = AList.update (to_id e) (get0 degree1 (to_id e) + 1) degree1,
               indegree = AList.update (to_id e) (get0 (indegree st) (to_id e) + 1) (indegree st),
               outgoing = AList.update (from_id e)
                            (targets_of (outgoing st) (from_id e) @ [to_id e]) (outgoing st)\<rparr> es))"

text \<open>
  The body of the loop over the targets of a node taken from the queue, the same in the
  validator and in both layouts: the remaining in-degree of the target goes down by one, and
  the target joins the queue when it reaches zero.
\<close>

definition release :: "string \<Rightarrow> (string \<times> int) list \<times> string list
    \<Rightarrow> (string \<times> int) list \<times> string list" where
  "release t st =
     (case st of (indeg, queue) \<Rightarrow>
        (let indeg' = AList.update t (get0 indeg t - 1) indeg
         in (indeg', if get0 indeg' t = 0 then queue @ [t] else queue)))"

text \<open>The number of entries with a positive value: with the length of the queue it bounds
  the work that is left.\<close>

definition positives :: "(string \<times> int) list \<Rightarrow> nat" where
  "positives m = length (filter (\<lambda>kv. 0 < snd kv) m)"

lemma positives_update:
  "positives (AList.update k v m) + (if 0 < get0 m k then 1 else 0)
     = positives m + (if 0 < v then 1 else 0)"
proof (induction m)
  case Nil
  then show ?case by (simp add: positives_def get0_def)
next
  case (Cons p m)
  obtain a b where p: "p = (a, b)" by (cases p)
  show ?case
  proof (cases "a = k")
    case True
    then show ?thesis by (simp add: p positives_def get0_def)
  next
    case False
    then have "get0 (p # m) k = get0 m k" by (simp add: p get0_def)
    with Cons False show ?thesis by (simp add: p positives_def)
  qed
qed

lemma release_measure:
  "release t (indeg, queue) = (indeg', queue')
   \<Longrightarrow> length queue' + positives indeg' \<le> length queue + positives indeg"
proof -
  assume a: "release t (indeg, queue) = (indeg', queue')"
  define v where "v = get0 indeg t - 1"
  have i: "indeg' = AList.update t v indeg" using a by (auto simp: release_def Let_def v_def)
  have g: "get0 indeg' t = v" by (simp add: i get0_def update_conv')
  have q: "queue' = (if v = 0 then queue @ [t] else queue)"
    using a g by (auto simp: release_def Let_def v_def)
  have "positives indeg' + (if 0 < get0 indeg t then 1 else 0)
          = positives indeg + (if 0 < v then 1 else 0)"
    unfolding i by (rule positives_update)
  then show ?thesis
    unfolding q using v_def by (auto split: if_splits)
qed

lemma fold_release_measure:
  "fold release ts (indeg, queue) = (indeg', queue')
   \<Longrightarrow> length queue' + positives indeg' \<le> length queue + positives indeg"
proof (induction ts arbitrary: indeg queue)
  case Nil
  then show ?case by simp
next
  case (Cons t ts)
  obtain i1 q1 where r: "release t (indeg, queue) = (i1, q1)" by (cases "release t (indeg, queue)")
  with Cons.prems have "fold release ts (i1, q1) = (indeg', queue')" by simp
  from Cons.IH [OF this] release_measure [OF r] show ?case by simp
qed

text \<open>The \<open>while\<close> loop of the validator: the number of nodes taken from the queue.\<close>

function visit_loop :: "(string \<times> string list) list \<Rightarrow> string list \<Rightarrow> (string \<times> int) list
    \<Rightarrow> nat \<Rightarrow> nat" where
  "visit_loop out queue indeg visited =
     (case queue of
        [] \<Rightarrow> visited
      | current # rest \<Rightarrow>
          (case fold release (targets_of out current) (indeg, rest) of
             (indeg', queue') \<Rightarrow> visit_loop out queue' indeg' (visited + 1)))"
  by pat_completeness auto
termination
proof (relation "measure (\<lambda>(out, queue, indeg, visited). length queue + positives indeg)",
    goal_cases)
  case 1
  show ?case by simp
next
  case (2 out queue indeg visited current rest indeg' queue')
  from fold_release_measure [OF 2(2) [symmetric]] 2(1) show ?case by simp
qed

declare visit_loop.simps [simp del]

definition validateGeneratedGraph :: "graph \<Rightarrow> string option" where
  "validateGeneratedGraph g =
     (if nodes g = [] then Some ''Invalid flow: at least one node is required.''
      else
        (case check_nodes \<lparr>nodeIds = [], degree = [], indegree = [], outgoing = []\<rparr> (nodes g) of
           Inl msg \<Rightarrow> Some msg
         | Inr st0 \<Rightarrow>
             (case check_edges st0 (edges g) of
                Inl msg \<Rightarrow> Some msg
              | Inr st \<Rightarrow>
                  (case (if 1 < length (nodes g)
                         then find (\<lambda>n. get0 (degree st) (node_id n) = 0) (nodes g)
                         else None) of
                     Some orphan \<Rightarrow>
                       Some (''Invalid flow: orphan node '' @ quoted (node_id orphan)
                             @ '' has no edges.'')
                   | None \<Rightarrow>
                       if visit_loop (outgoing st)
                            (filter (\<lambda>i. get0 (indegree st) i = 0) (map node_id (nodes g)))
                            (indegree st) 0
                          \<noteq> length (nodes g)
                       then Some ''Invalid flow: graph must be directed and acyclic.''
                       else None))))"

section \<open>The order in which the queue is processed\<close>

text \<open>
  The three loops over the queue (validator, import layout, re-layout) take the same nodes
  from the queue in the same order, whatever else they record on the way. That order is the
  subject of the proofs below.
\<close>

function kahn_order :: "(string \<times> string list) list \<Rightarrow> string list \<Rightarrow> (string \<times> int) list
    \<Rightarrow> string list" where
  "kahn_order out queue indeg =
     (case queue of
        [] \<Rightarrow> []
      | current # rest \<Rightarrow>
          (case fold release (targets_of out current) (indeg, rest) of
             (indeg', queue') \<Rightarrow> current # kahn_order out queue' indeg'))"
  by pat_completeness auto
termination
proof (relation "measure (\<lambda>(out, queue, indeg). length queue + positives indeg)", goal_cases)
  case 1
  show ?case by simp
next
  case (2 out queue indeg current rest indeg' queue')
  from fold_release_measure [OF 2(2) [symmetric]] 2(1) show ?case by simp
qed

declare kahn_order.simps [simp del]

lemma kahn_order_Nil: "kahn_order out [] indeg = []"
  by (subst kahn_order.simps) simp

lemma kahn_order_Cons:
  "fold release (targets_of out c) (indeg, rest) = (indeg', queue')
   \<Longrightarrow> kahn_order out (c # rest) indeg = c # kahn_order out queue' indeg'"
  by (subst kahn_order.simps) simp

lemma visit_loop_order:
  "visit_loop out queue indeg visited = visited + length (kahn_order out queue indeg)"
proof (induction out queue indeg arbitrary: visited rule: kahn_order.induct)
  case (1 out queue indeg)
  show ?case
  proof (cases queue)
    case Nil
    then show ?thesis by (subst visit_loop.simps) (simp add: kahn_order_Nil)
  next
    case (Cons c rest)
    obtain i' q' where f: "fold release (targets_of out c) (indeg, rest) = (i', q')"
      by (cases "fold release (targets_of out c) (indeg, rest)")
    have "visit_loop out q' i' (visited + 1) = visited + 1 + length (kahn_order out q' i')"
      using "1.IH" [OF Cons f [symmetric]] .
    then show ?thesis
      unfolding Cons by (subst visit_loop.simps) (simp add: f kahn_order_Cons [OF f])
  qed
qed

subsection \<open>What the inner loop does to the in-degrees and the queue\<close>

lemma get0_update: "get0 (AList.update k v m) k' = (if k' = k then v else get0 m k')"
  by (simp add: get0_def update_conv')

lemma release_eq:
  "release t (indeg, queue)
     = (AList.update t (get0 indeg t - 1) indeg, if get0 indeg t = 1 then queue @ [t] else queue)"
  by (auto simp: release_def Let_def get0_update)

lemma fold_release:
  assumes "fold release ts (indeg, queue) = (indeg', queue')"
  shows "(\<forall>v. get0 indeg' v = get0 indeg v - int (count_list ts v))
    \<and> (\<exists>new. queue' = queue @ new \<and> distinct new
          \<and> set new = {v \<in> set ts. 1 \<le> get0 indeg v \<and> get0 indeg v \<le> int (count_list ts v)})"
  using assms
proof (induction ts arbitrary: indeg queue)
  case Nil
  then show ?case by auto
next
  case (Cons t ts)
  let ?i1 = "AList.update t (get0 indeg t - 1) indeg"
  let ?q1 = "if get0 indeg t = 1 then queue @ [t] else queue"
  from Cons.prems have f: "fold release ts (?i1, ?q1) = (indeg', queue')"
    by (simp add: release_eq)
  from Cons.IH [OF f] obtain new where
    g: "\<forall>v. get0 indeg' v = get0 ?i1 v - int (count_list ts v)"
    and q: "queue' = ?q1 @ new" and d: "distinct new"
    and s: "set new = {v \<in> set ts. 1 \<le> get0 ?i1 v \<and> get0 ?i1 v \<le> int (count_list ts v)}"
    by blast
  have c0: "count_list ts v = 0 \<longleftrightarrow> v \<notin> set ts" for v
    by (simp add: count_list_0_iff)
  have 1: "\<forall>v. get0 indeg' v = get0 indeg v - int (count_list (t # ts) v)"
    using g by (simp add: get0_update)
  let ?new = "(if get0 indeg t = 1 then [t] else []) @ new"
  have 2: "queue' = queue @ ?new" using q by simp
  have tn: "get0 indeg t = 1 \<Longrightarrow> t \<notin> set new" using s by (simp add: get0_update)
  have 3: "distinct ?new" using d tn by simp
  have 4: "set ?new = {v \<in> set (t # ts). 1 \<le> get0 indeg v \<and> get0 indeg v \<le> int (count_list (t # ts) v)}"
  proof (rule set_eqI)
    fix v
    show "v \<in> set ?new \<longleftrightarrow> v \<in> {v \<in> set (t # ts). 1 \<le> get0 indeg v \<and> get0 indeg v \<le> int (count_list (t # ts) v)}"
    proof (cases "v = t")
      case False
      then show ?thesis using s by (auto simp: get0_update)
    next
      case True
      show ?thesis
      proof (cases "get0 indeg t = 1")
        case one: True
        then show ?thesis using True by simp
      next
        case False
        have "t \<in> set new \<longleftrightarrow> t \<in> set ts \<and> 2 \<le> get0 indeg t \<and> get0 indeg t - 1 \<le> int (count_list ts t)"
          using s by (auto simp: get0_update)
        moreover have "t \<notin> set ts \<Longrightarrow> \<not> (2 \<le> get0 indeg t \<and> get0 indeg t - 1 \<le> int (count_list ts t))"
          using c0 [of t] by simp
        ultimately show ?thesis using True False by auto
      qed
    qed
  qed
  from 1 2 3 4 show ?case by blast
qed

subsection \<open>The invariant of the queue\<close>

text \<open>\<open>pending E P v\<close>: the edges into \<open>v\<close> whose source has not been processed yet.\<close>

definition pending :: "(string \<times> string) list \<Rightarrow> string list \<Rightarrow> string \<Rightarrow> nat" where
  "pending E P v = length (filter (\<lambda>e. snd e = v \<and> fst e \<notin> set P) E)"

definition adjacency :: "(string \<times> string) list \<Rightarrow> (string \<times> string list) list \<Rightarrow> bool" where
  "adjacency E out \<longleftrightarrow> (\<forall>u. targets_of out u = map snd (filter (\<lambda>e. fst e = u) E))"

definition kahn_inv :: "(string \<times> string) list \<Rightarrow> string list \<Rightarrow> string list \<Rightarrow> string list
    \<Rightarrow> (string \<times> int) list \<Rightarrow> bool" where
  "kahn_inv E V P queue indeg \<longleftrightarrow>
     distinct (P @ queue) \<and> set (P @ queue) \<subseteq> set V
     \<and> (\<forall>v. get0 indeg v = int (pending E P v))
     \<and> (\<forall>v \<in> set V. v \<in> set (P @ queue) \<longleftrightarrow> pending E P v = 0)
     \<and> (\<forall>e \<in> set E. snd e \<in> set P \<longrightarrow> fst e \<in> set (takeWhile (\<lambda>x. x \<noteq> snd e) P))"

lemma count_targets:
  "count_list (map snd (filter (\<lambda>e. fst e = c) E)) v
     = length (filter (\<lambda>e. snd e = v \<and> fst e = c) E)"
  by (induction E) auto

lemma pending_split:
  assumes "c \<notin> set P"
  shows "pending E P v = length (filter (\<lambda>e. snd e = v \<and> fst e = c) E) + pending E (P @ [c]) v"
  using assms unfolding pending_def by (induction E) auto

lemma takeWhile_until_last: "c \<notin> set P \<Longrightarrow> takeWhile (\<lambda>x. x \<noteq> c) (P @ [c]) = P"
  by (induction P) auto

lemma kahn_inv_step:
  assumes adj: "adjacency E out" and tv: "\<forall>e \<in> set E. snd e \<in> set V"
    and inv: "kahn_inv E V P (c # rest) indeg"
    and f: "fold release (targets_of out c) (indeg, rest) = (indeg', queue')"
  shows "kahn_inv E V (P @ [c]) queue' indeg'"
proof -
  let ?ts = "targets_of out c"
  define k where "k v = length (filter (\<lambda>e. snd e = v \<and> fst e = c) E)" for v
  have ts: "?ts = map snd (filter (\<lambda>e. fst e = c) E)" using adj by (simp add: adjacency_def)
  have cnt: "count_list ?ts v = k v" for v unfolding ts k_def by (rule count_targets)
  from inv have dist: "distinct (P @ c # rest)" and sub: "set (P @ c # rest) \<subseteq> set V"
    and deg: "\<And>v. get0 indeg v = int (pending E P v)"
    and zero: "\<And>v. v \<in> set V \<Longrightarrow> v \<in> set (P @ c # rest) \<longleftrightarrow> pending E P v = 0"
    and topo: "\<And>e. e \<in> set E \<Longrightarrow> snd e \<in> set P \<Longrightarrow> fst e \<in> set (takeWhile (\<lambda>x. x \<noteq> snd e) P)"
    by (auto simp: kahn_inv_def)
  have cP: "c \<notin> set P" using dist by simp
  have split: "pending E P v = k v + pending E (P @ [c]) v" for v
    unfolding k_def using cP by (rule pending_split)
  from fold_release [OF f] obtain new where
    g: "\<And>v. get0 indeg' v = get0 indeg v - int (count_list ?ts v)"
    and q: "queue' = rest @ new" and d: "distinct new"
    and s: "set new = {v \<in> set ?ts. 1 \<le> get0 indeg v \<and> get0 indeg v \<le> int (count_list ?ts v)}"
    by blast
  have ints: "v \<in> set ?ts \<longleftrightarrow> 1 \<le> k v" for v
    using cnt [of v] count_list_0_iff [of ?ts v] by (cases "k v") auto
  have new: "v \<in> set new \<longleftrightarrow> 1 \<le> k v \<and> pending E (P @ [c]) v = 0" for v
    unfolding s using split [of v] by (auto simp: deg cnt ints)
  have newV: "set new \<subseteq> set V"
  proof
    fix v assume "v \<in> set new"
    then have "v \<in> set ?ts" using s by simp
    then show "v \<in> set V" using tv unfolding ts by auto
  qed
  have fresh: "v \<notin> set (P @ c # rest)" if "v \<in> set new" for v
  proof -
    from that have "1 \<le> k v" using new by simp
    then have "pending E P v \<noteq> 0" using split [of v] by simp
    moreover have "v \<in> set V" using that newV by auto
    ultimately show ?thesis using zero [of v] by simp
  qed
  have 1: "distinct ((P @ [c]) @ queue')"
    unfolding q using dist d fresh by auto
  have 2: "set ((P @ [c]) @ queue') \<subseteq> set V"
    unfolding q using sub newV by auto
  have 3: "\<forall>v. get0 indeg' v = int (pending E (P @ [c]) v)"
    using g split by (simp add: deg cnt)
  have 4: "\<forall>v \<in> set V. v \<in> set ((P @ [c]) @ queue') \<longleftrightarrow> pending E (P @ [c]) v = 0"
  proof
    fix v assume v: "v \<in> set V"
    show "v \<in> set ((P @ [c]) @ queue') \<longleftrightarrow> pending E (P @ [c]) v = 0"
    proof
      assume "v \<in> set ((P @ [c]) @ queue')"
      then consider "v \<in> set (P @ c # rest)" | "v \<in> set new" unfolding q by auto
      then show "pending E (P @ [c]) v = 0"
      proof cases
        case 1
        then have "pending E P v = 0" using zero [OF v] by simp
        then show ?thesis using split [of v] by simp
      next
        case 2
        then show ?thesis using new by simp
      qed
    next
      assume p: "pending E (P @ [c]) v = 0"
      show "v \<in> set ((P @ [c]) @ queue')"
      proof (cases "k v = 0")
        case True
        then have "pending E P v = 0" using split [of v] p by simp
        then have "v \<in> set (P @ c # rest)" using zero [OF v] by simp
        then show ?thesis unfolding q by auto
      next
        case False
        then have "v \<in> set new" using new p by simp
        then show ?thesis unfolding q by simp
      qed
    qed
  qed
  have 5: "\<forall>e \<in> set E. snd e \<in> set (P @ [c])
             \<longrightarrow> fst e \<in> set (takeWhile (\<lambda>x. x \<noteq> snd e) (P @ [c]))"
  proof (intro ballI impI)
    fix e assume e: "e \<in> set E" and m: "snd e \<in> set (P @ [c])"
    show "fst e \<in> set (takeWhile (\<lambda>x. x \<noteq> snd e) (P @ [c]))"
    proof (cases "snd e \<in> set P")
      case True
      then have "takeWhile (\<lambda>x. x \<noteq> snd e) (P @ [c]) = takeWhile (\<lambda>x. x \<noteq> snd e) P"
        by (intro takeWhile_append1) auto
      then show ?thesis using topo [OF e True] by simp
    next
      case False
      then have sc: "snd e = c" using m by simp
      have "c \<in> set V" using sub by simp
      then have "pending E P c = 0" using zero [of c] by simp
      then have "filter (\<lambda>e. snd e = c \<and> fst e \<notin> set P) E = []" by (simp add: pending_def)
      then have "fst e \<in> set P" using e sc by (auto simp: filter_empty_conv)
      moreover have "takeWhile (\<lambda>x. x \<noteq> snd e) (P @ [c]) = P"
        using False sc by (simp add: takeWhile_until_last)
      ultimately show ?thesis by simp
    qed
  qed
  from 1 2 3 4 5 show ?thesis unfolding kahn_inv_def by blast
qed

lemma kahn_inv_order:
  assumes "adjacency E out" "\<forall>e \<in> set E. snd e \<in> set V" "kahn_inv E V P queue indeg"
  shows "\<exists>indeg'. kahn_inv E V (P @ kahn_order out queue indeg) [] indeg'"
  using assms(1,3)
proof (induction out queue indeg arbitrary: P rule: kahn_order.induct)
  case (1 out queue indeg)
  show ?case
  proof (cases queue)
    case Nil
    then show ?thesis using "1.prems" by (auto simp: kahn_order_Nil)
  next
    case (Cons c rest)
    obtain i' q' where f: "fold release (targets_of out c) (indeg, rest) = (i', q')"
      by (cases "fold release (targets_of out c) (indeg, rest)")
    have "kahn_inv E V P (c # rest) indeg" using "1.prems"(2) unfolding Cons .
    from kahn_inv_step [OF "1.prems"(1) assms(2) this f]
    have "kahn_inv E V (P @ [c]) q' i'" .
    from "1.IH" [OF Cons f [symmetric] "1.prems"(1) this]
    show ?thesis unfolding Cons by (simp add: kahn_order_Cons [OF f])
  qed
qed

subsection \<open>The queue empties exactly the acyclic graphs\<close>

lemma kahn_inv_initial:
  assumes "distinct queue" "set queue \<subseteq> set V"
    and "\<forall>v. get0 indeg v = int (length (filter (\<lambda>e. snd e = v) E))"
    and "\<forall>v \<in> set V. v \<in> set queue \<longleftrightarrow> get0 indeg v = 0"
  shows "kahn_inv E V [] queue indeg"
  using assms by (simp add: kahn_inv_def pending_def)

lemma takeWhile_shorter: "u \<in> set T \<Longrightarrow> length (takeWhile (\<lambda>x. x \<noteq> u) T) < length T"
  by (induction T) auto

lemma position_less:
  assumes "u \<in> set (takeWhile (\<lambda>x. x \<noteq> v) R)"
  shows "length (takeWhile (\<lambda>x. x \<noteq> u) R) < length (takeWhile (\<lambda>x. x \<noteq> v) R)"
proof -
  let ?T = "takeWhile (\<lambda>x. x \<noteq> v) R"
  have "R = ?T @ dropWhile (\<lambda>x. x \<noteq> v) R" by simp
  then have "takeWhile (\<lambda>x. x \<noteq> u) R = takeWhile (\<lambda>x. x \<noteq> u) (?T @ dropWhile (\<lambda>x. x \<noteq> v) R)"
    by simp
  also have "\<dots> = takeWhile (\<lambda>x. x \<noteq> u) ?T"
    using assms by (intro takeWhile_append1) auto
  finally have "takeWhile (\<lambda>x. x \<noteq> u) R = takeWhile (\<lambda>x. x \<noteq> u) ?T" .
  moreover have "length (takeWhile (\<lambda>x. x \<noteq> u) ?T) < length ?T"
    using assms by (rule takeWhile_shorter)
  ultimately show ?thesis by simp
qed

lemma kahn_all_acyclic:
  assumes inv: "kahn_inv E V R [] indeg" and all: "set R = set V"
    and tv: "\<forall>e \<in> set E. snd e \<in> set V"
  shows "acyclic (set E)"
proof -
  define f where "f x = length (takeWhile (\<lambda>y. y \<noteq> x) R)" for x
  have "f a < f b" if "(a, b) \<in> set E" for a b
  proof -
    have "b \<in> set R" using that tv all by auto
    then have "a \<in> set (takeWhile (\<lambda>x. x \<noteq> b) R)"
      using inv that by (auto simp: kahn_inv_def)
    then show ?thesis unfolding f_def by (rule position_less)
  qed
  then have "\<And>a b. (a, b) \<in> (set E)\<inverse> \<Longrightarrow> f b < f a" by simp
  then have "acyclic ((set E)\<inverse>)" by (rule acyclicI_order)
  then show ?thesis by simp
qed

lemma kahn_acyclic_all:
  assumes inv: "kahn_inv E V R [] indeg" and ac: "acyclic (set E)"
    and fv: "\<forall>e \<in> set E. fst e \<in> set V"
  shows "set R = set V"
proof (rule ccontr)
  assume ne: "set R \<noteq> set V"
  have sub: "set R \<subseteq> set V" using inv by (simp add: kahn_inv_def)
  with ne obtain x where x: "x \<in> set V - set R" by auto
  have "wf (set E)" using ac by (simp add: finite_acyclic_wf)
  from wfE_min [OF this x] obtain z where z: "z \<in> set V - set R"
    and min: "\<And>y. (y, z) \<in> set E \<Longrightarrow> y \<notin> set V - set R" by blast
  have "pending E R z \<noteq> 0" using inv z by (auto simp: kahn_inv_def)
  then have "filter (\<lambda>e. snd e = z \<and> fst e \<notin> set R) E \<noteq> []" by (simp add: pending_def)
  then obtain e where e: "e \<in> set E" "snd e = z" "fst e \<notin> set R"
    by (auto simp: filter_empty_conv)
  then have "(fst e, z) \<in> set E" by (metis prod.collapse)
  moreover have "fst e \<in> set V - set R" using e fv by auto
  ultimately show False using min by blast
qed

lemma kahn_length_iff:
  assumes inv: "kahn_inv E V R [] indeg" and dV: "distinct V"
  shows "length R = length V \<longleftrightarrow> set R = set V"
proof -
  have d: "distinct R" and sub: "set R \<subseteq> set V" using inv by (simp_all add: kahn_inv_def)
  have "card (set R) = length R" "card (set V) = length V"
    using d dV by (simp_all add: distinct_card)
  then show ?thesis using sub by (metis card_subset_eq List.finite_set)
qed

text \<open>The processing order covers all nodes exactly when the edges have no cycle.\<close>

lemma kahn_order_complete_iff:
  assumes "adjacency E out" "\<forall>e \<in> set E. fst e \<in> set V \<and> snd e \<in> set V"
    and "distinct V" "kahn_inv E V [] queue indeg"
  shows "length (kahn_order out queue indeg) = length V \<longleftrightarrow> acyclic (set E)"
    and "acyclic (set E) \<Longrightarrow> set (kahn_order out queue indeg) = set V"
proof -
  from assms(2) have tv: "\<forall>e \<in> set E. snd e \<in> set V" and fv: "\<forall>e \<in> set E. fst e \<in> set V"
    by auto
  from kahn_inv_order [OF assms(1) tv assms(4)]
  obtain indeg' where inv: "kahn_inv E V (kahn_order out queue indeg) [] indeg'" by auto
  show "length (kahn_order out queue indeg) = length V \<longleftrightarrow> acyclic (set E)"
    using kahn_length_iff [OF inv assms(3)] kahn_all_acyclic [OF inv _ tv]
      kahn_acyclic_all [OF inv _ fv] by blast
  show "acyclic (set E) \<Longrightarrow> set (kahn_order out queue indeg) = set V"
    using kahn_acyclic_all [OF inv _ fv] by blast
qed

section \<open>Properties of the graph validator\<close>

text \<open>The predicates on a graph, as the specification words them.\<close>

definition edge_rel :: "graph \<Rightarrow> (string \<times> string) set" where
  "edge_rel g = set (map (\<lambda>e. (from_id e, to_id e)) (edges g))"

definition acyclic_graph :: "graph \<Rightarrow> bool" where
  "acyclic_graph g \<longleftrightarrow> acyclic (edge_rel g)"

definition no_orphans :: "graph \<Rightarrow> bool" where
  "no_orphans g \<longleftrightarrow>
     (\<forall>n \<in> set (nodes g). \<exists>e \<in> set (edges g). from_id e = node_id n \<or> to_id e = node_id n)"

definition unique_ids :: "graph \<Rightarrow> bool" where
  "unique_ids g \<longleftrightarrow> distinct (map node_id (nodes g))"

definition valid_roles :: "graph \<Rightarrow> bool" where
  "valid_roles g \<longleftrightarrow> (\<forall>n \<in> set (nodes g). role n \<in> {''system'', ''user'', ''assistant''})"

definition referenced_edges :: "graph \<Rightarrow> bool" where
  "referenced_edges g \<longleftrightarrow>
     (\<forall>e \<in> set (edges g). from_id e \<in> set (map node_id (nodes g))
                        \<and> to_id e \<in> set (map node_id (nodes g)))"

definition filled_nodes :: "graph \<Rightarrow> bool" where
  "filled_nodes g \<longleftrightarrow> (\<forall>n \<in> set (nodes g). node_id n \<noteq> [] \<and> trim (content n) \<noteq> [])"

subsection \<open>The two checking loops\<close>

definition blank :: "vstate \<Rightarrow> bool" where
  "blank st \<longleftrightarrow>
     (\<forall>v. get0 (degree st) v = 0 \<and> get0 (indegree st) v = 0 \<and> targets_of (outgoing st) v = [])"

definition node_ok :: "gnode \<Rightarrow> bool" where
  "node_ok n \<longleftrightarrow> node_id n \<noteq> [] \<and> role n \<in> set validRoles \<and> trim (content n) \<noteq> []"

lemma targets_of_update:
  "targets_of (AList.update k v m) k' = (if k' = k then v else targets_of m k')"
  by (simp add: targets_of_def update_conv')

lemma check_nodes_Inr:
  "check_nodes st ns = Inr st' \<Longrightarrow> blank st \<Longrightarrow>
     blank st' \<and> nodeIds st' = nodeIds st @ map node_id ns
     \<and> distinct (map node_id ns) \<and> set (map node_id ns) \<inter> set (nodeIds st) = {}
     \<and> (\<forall>n \<in> set ns. node_ok n)"
proof (induction ns arbitrary: st)
  case Nil
  then show ?case by simp
next
  case (Cons n ns)
  let ?st1 = "\<lparr>nodeIds = nodeIds st @ [node_id n],
               degree = AList.update (node_id n) 0 (degree st),
               indegree = AList.update (node_id n) 0 (indegree st),
               outgoing = AList.update (node_id n) [] (outgoing st)\<rparr>"
  from Cons.prems(1) have ok: "node_ok n" and new: "node_id n \<notin> set (nodeIds st)"
    and rest: "check_nodes ?st1 ns = Inr st'"
    by (auto simp: node_ok_def split: if_splits)
  have "blank ?st1" using Cons.prems(2) by (simp add: blank_def get0_update targets_of_update)
  from Cons.IH [OF rest this] ok new show ?case by auto
qed

lemma check_nodes_ok:
  "distinct (map node_id ns) \<Longrightarrow> set (map node_id ns) \<inter> set (nodeIds st) = {}
   \<Longrightarrow> \<forall>n \<in> set ns. node_ok n \<Longrightarrow> \<exists>st'. check_nodes st ns = Inr st'"
proof (induction ns arbitrary: st)
  case Nil
  then show ?case by simp
next
  case (Cons n ns)
  let ?st1 = "\<lparr>nodeIds = nodeIds st @ [node_id n],
               degree = AList.update (node_id n) 0 (degree st),
               indegree = AList.update (node_id n) 0 (indegree st),
               outgoing = AList.update (node_id n) [] (outgoing st)\<rparr>"
  have "\<exists>st'. check_nodes ?st1 ns = Inr st'"
    using Cons.prems by (intro Cons.IH) auto
  then show ?case using Cons.prems by (auto simp: node_ok_def)
qed

definition edge_ok :: "string set \<Rightarrow> gedge \<Rightarrow> bool" where
  "edge_ok ids e \<longleftrightarrow>
     from_id e \<noteq> [] \<and> to_id e \<noteq> [] \<and> from_id e \<in> ids \<and> to_id e \<in> ids \<and> from_id e \<noteq> to_id e"

definition add_edge :: "vstate \<Rightarrow> gedge \<Rightarrow> vstate" where
  "add_edge st e =
     (let degree1 = AList.update (from_id e) (get0 (degree st) (from_id e) + 1) (degree st)
      in \<lparr>nodeIds = nodeIds st,
          degree = AList.update (to_id e) (get0 degree1 (to_id e) + 1) degree1,
          indegree = AList.update (to_id e) (get0 (indegree st) (to_id e) + 1) (indegree st),
          outgoing = AList.update (from_id e)
                       (targets_of (outgoing st) (from_id e) @ [to_id e]) (outgoing st)\<rparr>)"

lemma check_edges_Cons_ok:
  "edge_ok (set (nodeIds st)) e \<Longrightarrow> check_edges st (e # es) = check_edges (add_edge st e) es"
  by (auto simp: edge_ok_def add_edge_def Let_def)

lemma check_edges_Cons_bad:
  "\<not> edge_ok (set (nodeIds st)) e \<Longrightarrow> \<exists>msg. check_edges st (e # es) = Inl msg"
  by (auto simp: edge_ok_def)

lemma add_edge_counts:
  "nodeIds (add_edge st e) = nodeIds st"
  "get0 (degree (add_edge st e)) v
     = get0 (degree st) v + (if from_id e = v then 1 else 0) + (if to_id e = v then 1 else 0)"
  "get0 (indegree (add_edge st e)) v = get0 (indegree st) v + (if to_id e = v then 1 else 0)"
  "targets_of (outgoing (add_edge st e)) v
     = targets_of (outgoing st) v @ (if from_id e = v then [to_id e] else [])"
  by (auto simp: add_edge_def Let_def get0_update targets_of_update)

lemma check_edges_Inr:
  "check_edges st es = Inr st' \<Longrightarrow>
     nodeIds st' = nodeIds st \<and> (\<forall>e \<in> set es. edge_ok (set (nodeIds st)) e)
     \<and> (\<forall>v. get0 (degree st') v = get0 (degree st) v
               + int (length (filter (\<lambda>e. from_id e = v) es))
               + int (length (filter (\<lambda>e. to_id e = v) es)))
     \<and> (\<forall>v. get0 (indegree st') v = get0 (indegree st) v
               + int (length (filter (\<lambda>e. to_id e = v) es)))
     \<and> (\<forall>v. targets_of (outgoing st') v
               = targets_of (outgoing st) v @ map to_id (filter (\<lambda>e. from_id e = v) es))"
proof (induction es arbitrary: st)
  case Nil
  then show ?case by simp
next
  case (Cons e es)
  have ok: "edge_ok (set (nodeIds st)) e"
    using Cons.prems check_edges_Cons_bad [of st e es] by fastforce
  then have "check_edges (add_edge st e) es = Inr st'"
    using Cons.prems by (simp only: check_edges_Cons_ok)
  from Cons.IH [OF this] ok show ?case by (auto simp: add_edge_counts)
qed

lemma check_edges_ok:
  "\<forall>e \<in> set es. edge_ok (set (nodeIds st)) e \<Longrightarrow> \<exists>st'. check_edges st es = Inr st'"
proof (induction es arbitrary: st)
  case Nil
  then show ?case by simp
next
  case (Cons e es)
  have "\<exists>st'. check_edges (add_edge st e) es = Inr st'"
    using Cons.prems by (intro Cons.IH) (simp add: add_edge_counts)
  then show ?case using Cons.prems by (simp add: check_edges_Cons_ok del: check_edges.simps)
qed

subsection \<open>Acceptance\<close>

lemma length_filter_edges:
  "length (filter (\<lambda>p. snd p = v) (map (\<lambda>e. (from_id e, to_id e)) es))
     = length (filter (\<lambda>e. to_id e = v) es)"
  by (induction es) auto

lemma targets_edges:
  "map snd (filter (\<lambda>p. fst p = u) (map (\<lambda>e. (from_id e, to_id e)) es))
     = map to_id (filter (\<lambda>e. from_id e = u) es)"
  by (induction es) auto

lemma validate_after_checks:
  assumes ne: "nodes g \<noteq> []"
    and cn: "check_nodes \<lparr>nodeIds = [], degree = [], indegree = [], outgoing = []\<rparr> (nodes g) = Inr st0"
    and ce: "check_edges st0 (edges g) = Inr st"
  shows "validateGeneratedGraph g = None
           \<longleftrightarrow> (1 < length (nodes g) \<longrightarrow> no_orphans g) \<and> acyclic_graph g"
proof -
  define V where "V = map node_id (nodes g)"
  define E where "E = map (\<lambda>e. (from_id e, to_id e)) (edges g)"
  have b0: "blank \<lparr>nodeIds = [], degree = [], indegree = [], outgoing = []\<rparr>"
    by (simp add: blank_def get0_def targets_of_def)
  from check_nodes_Inr [OF cn b0] have b: "blank st0" and ids0: "nodeIds st0 = V"
    and dV: "distinct V" by (simp_all add: V_def)
  from check_edges_Inr [OF ce] have ids: "nodeIds st = V"
    and eok: "\<forall>e \<in> set (edges g). edge_ok (set V) e"
    and deg: "\<And>v. get0 (degree st) v = int (length (filter (\<lambda>e. from_id e = v) (edges g)))
               + int (length (filter (\<lambda>e. to_id e = v) (edges g)))"
    and ind: "\<And>v. get0 (indegree st) v = int (length (filter (\<lambda>e. to_id e = v) (edges g)))"
    and out: "\<And>v. targets_of (outgoing st) v = map to_id (filter (\<lambda>e. from_id e = v) (edges g))"
    using b by (simp_all add: ids0 blank_def)
  have adj: "adjacency E (outgoing st)"
    by (simp add: adjacency_def out E_def targets_edges)
  have ev: "\<forall>e \<in> set E. fst e \<in> set V \<and> snd e \<in> set V"
    using eok by (auto simp: E_def edge_ok_def)
  let ?q = "filter (\<lambda>i. get0 (indegree st) i = 0) V"
  have inv: "kahn_inv E V [] ?q (indegree st)"
    using dV by (intro kahn_inv_initial) (auto simp: ind E_def comp_def)
  have visit: "visit_loop (outgoing st) ?q (indegree st) 0 = length (nodes g) \<longleftrightarrow> acyclic_graph g"
    using kahn_order_complete_iff(1) [OF adj ev dV inv]
    by (simp add: visit_loop_order acyclic_graph_def edge_rel_def E_def V_def)
  have sum0: "int a + int b = 0 \<longleftrightarrow> a = 0 \<and> b = 0" for a b :: nat by arith
  have deg0: "get0 (degree st) v = 0
      \<longleftrightarrow> (\<forall>e \<in> set (edges g). from_id e \<noteq> v \<and> to_id e \<noteq> v)" for v
    unfolding deg sum0 by (auto simp: filter_empty_conv)
  have orphan: "find (\<lambda>n. get0 (degree st) (node_id n) = 0) (nodes g) = None \<longleftrightarrow> no_orphans g"
    unfolding find_None_iff no_orphans_def deg0 by blast
  show ?thesis
    using ne cn ce visit orphan
    by (auto simp: validateGeneratedGraph_def V_def split: option.splits)
qed

lemma validate_None_iff:
  "validateGeneratedGraph g = None \<longleftrightarrow>
     nodes g \<noteq> [] \<and> unique_ids g \<and> (\<forall>n \<in> set (nodes g). node_ok n)
     \<and> (\<forall>e \<in> set (edges g). edge_ok (set (map node_id (nodes g))) e)
     \<and> (1 < length (nodes g) \<longrightarrow> no_orphans g) \<and> acyclic_graph g"
proof -
  let ?st00 = "\<lparr>nodeIds = [], degree = [], indegree = [], outgoing = []\<rparr>"
  have b0: "blank ?st00" by (simp add: blank_def get0_def targets_of_def)
  show ?thesis
  proof
    assume v: "validateGeneratedGraph g = None"
    then have ne: "nodes g \<noteq> []" by (auto simp: validateGeneratedGraph_def)
    from v ne obtain st0 where cn: "check_nodes ?st00 (nodes g) = Inr st0"
      by (auto simp: validateGeneratedGraph_def split: sum.splits)
    from v ne cn obtain st where ce: "check_edges st0 (edges g) = Inr st"
      by (auto simp: validateGeneratedGraph_def split: sum.splits)
    from check_nodes_Inr [OF cn b0] have "nodeIds st0 = map node_id (nodes g)"
      "distinct (map node_id (nodes g))" "\<forall>n \<in> set (nodes g). node_ok n" by simp_all
    moreover from check_edges_Inr [OF ce]
    have "\<forall>e \<in> set (edges g). edge_ok (set (nodeIds st0)) e" by simp
    ultimately show "nodes g \<noteq> [] \<and> unique_ids g \<and> (\<forall>n \<in> set (nodes g). node_ok n)
     \<and> (\<forall>e \<in> set (edges g). edge_ok (set (map node_id (nodes g))) e)
     \<and> (1 < length (nodes g) \<longrightarrow> no_orphans g) \<and> acyclic_graph g"
      using validate_after_checks [OF ne cn ce] v ne by (simp add: unique_ids_def)
  next
    assume a: "nodes g \<noteq> [] \<and> unique_ids g \<and> (\<forall>n \<in> set (nodes g). node_ok n)
     \<and> (\<forall>e \<in> set (edges g). edge_ok (set (map node_id (nodes g))) e)
     \<and> (1 < length (nodes g) \<longrightarrow> no_orphans g) \<and> acyclic_graph g"
    then obtain st0 where cn: "check_nodes ?st00 (nodes g) = Inr st0"
      using check_nodes_ok [of "nodes g" ?st00] by (auto simp: unique_ids_def)
    from check_nodes_Inr [OF cn b0] have "nodeIds st0 = map node_id (nodes g)" by simp
    then obtain st where ce: "check_edges st0 (edges g) = Inr st"
      using a check_edges_ok [of "edges g" st0] by auto
    from a validate_after_checks [OF _ cn ce] show "validateGeneratedGraph g = None" by blast
  qed
qed

lemma acyclic_no_self_loop: "acyclic_graph g \<Longrightarrow> e \<in> set (edges g) \<Longrightarrow> from_id e \<noteq> to_id e"
proof
  assume a: "acyclic_graph g" and e: "e \<in> set (edges g)" and eq: "from_id e = to_id e"
  have "(from_id e, to_id e) \<in> edge_rel g" using e by (auto simp: edge_rel_def)
  then have "(from_id e, from_id e) \<in> (edge_rel g)\<^sup>+" using eq by auto
  then show False using a by (auto simp: acyclic_graph_def acyclic_def)
qed

text \<open>
  C1, as the code has it: a typed candidate graph with more than one node is accepted
  (\<open>null\<close>) if and only if it is acyclic, has no orphan node, has unique node ids, every role is
  system, user or assistant, every edge references existing node ids, and moreover every node id
  is non-empty and every node content is non-blank after trimming. The self-loop check and the
  check of an empty edge endpoint add nothing: the first follows from acyclicity, the second from
  the non-empty node ids.
\<close>

theorem validate_accepts_iff:
  assumes "1 < length (nodes g)"
  shows "validateGeneratedGraph g = None \<longleftrightarrow>
     acyclic_graph g \<and> no_orphans g \<and> unique_ids g \<and> valid_roles g \<and> referenced_edges g
     \<and> filled_nodes g"
proof -
  have ne: "nodes g \<noteq> []" using assms by auto
  have nodes_iff: "(\<forall>n \<in> set (nodes g). node_ok n) \<longleftrightarrow> valid_roles g \<and> filled_nodes g"
    by (auto simp: node_ok_def valid_roles_def filled_nodes_def validRoles_def)
  have edges_iff: "(\<forall>e \<in> set (edges g). edge_ok (set (map node_id (nodes g))) e)
      \<longleftrightarrow> referenced_edges g"
    if "acyclic_graph g" "filled_nodes g"
  proof
    assume "\<forall>e \<in> set (edges g). edge_ok (set (map node_id (nodes g))) e"
    then show "referenced_edges g" by (auto simp: edge_ok_def referenced_edges_def)
  next
    assume r: "referenced_edges g"
    show "\<forall>e \<in> set (edges g). edge_ok (set (map node_id (nodes g))) e"
    proof
      fix e assume e: "e \<in> set (edges g)"
      then have m: "from_id e \<in> set (map node_id (nodes g))" "to_id e \<in> set (map node_id (nodes g))"
        using r by (auto simp: referenced_edges_def)
      then have "from_id e \<noteq> []" "to_id e \<noteq> []"
        using that(2) by (auto simp: filled_nodes_def)
      then show "edge_ok (set (map node_id (nodes g))) e"
        using m acyclic_no_self_loop [OF that(1) e] by (simp add: edge_ok_def)
    qed
  qed
  show ?thesis
    unfolding validate_None_iff using ne assms nodes_iff edges_iff by auto
qed

definition two_nodes :: graph where
  "two_nodes =
     \<lparr>nodes = [\<lparr>node_id = ''a'', role = ''user'', label = ''A'', content = ''x''\<rparr>,
               \<lparr>node_id = ''b'', role = ''user'', label = ''B'', content = ''y''\<rparr>],
      edges = [\<lparr>from_id = ''a'', to_id = ''b''\<rparr>]\<rparr>"

definition blank_content :: graph where
  "blank_content =
     \<lparr>nodes = [\<lparr>node_id = ''a'', role = ''user'', label = ''A'', content = ''x''\<rparr>,
               \<lparr>node_id = ''b'', role = ''user'', label = ''B'', content = '' ''\<rparr>],
      edges = [\<lparr>from_id = ''a'', to_id = ''b''\<rparr>]\<rparr>"

theorem validate_accepts_iff_witness:
  "1 < length (nodes two_nodes)
   \<and> validateGeneratedGraph two_nodes = None
   \<and> acyclic_graph two_nodes \<and> no_orphans two_nodes \<and> unique_ids two_nodes
   \<and> valid_roles two_nodes \<and> referenced_edges two_nodes \<and> filled_nodes two_nodes"
proof -
  have 1: "1 < length (nodes two_nodes)" by (simp add: two_nodes_def)
  have 2: "validateGeneratedGraph two_nodes = None" by code_simp
  from validate_accepts_iff [OF 1] 1 2 show ?thesis by simp
qed

text \<open>
  C1 as stated fails: the two nodes a and b with the edge from a to b satisfy the five
  predicates, but the content of b is a single space, and the validator rejects the graph.
\<close>

theorem validate_accepts_iff_counterexample:
  "1 < length (nodes blank_content)
   \<and> acyclic_graph blank_content \<and> no_orphans blank_content \<and> unique_ids blank_content
   \<and> valid_roles blank_content \<and> referenced_edges blank_content
   \<and> validateGeneratedGraph blank_content
       = Some (''Invalid node '' @ quoted ''b'' @ '': content cannot be empty.'')"
proof -
  have "acyclic ({} :: (string \<times> string) set)" by (simp add: acyclic_def)
  then have "acyclic_graph blank_content"
    by (simp add: acyclic_graph_def edge_rel_def blank_content_def acyclic_insert)
  moreover have "validateGeneratedGraph blank_content
       = Some (''Invalid node '' @ quoted ''b'' @ '': content cannot be empty.'')"
    by code_simp
  ultimately show ?thesis
    by (simp add: blank_content_def no_orphans_def unique_ids_def valid_roles_def
        referenced_edges_def)
qed

section \<open>Layout engine\<close>

text \<open>
  The nodes and edges of the canvas. Coordinates are numbers; the model takes them as reals
  (finite numbers, whose differences have the sign the comparators use). The marker of an edge
  is a constant of the rendering library and is left out.
\<close>

record node_data =
  data_role :: string
  data_label :: string
  data_content :: string
  listItems :: "list_item list"

record rf_node =
  rf_id :: string
  node_type :: string
  position :: "real \<times> real"
  data :: node_data

record rf_edge =
  edge_id :: string
  source :: string
  target :: string
  edge_type :: string

text \<open>The level of a target is raised to \<open>nextLevel\<close> when it has none or a lower one.\<close>

definition raise :: "nat \<Rightarrow> string \<Rightarrow> (string \<times> nat) list \<Rightarrow> (string \<times> nat) list" where
  "raise nextLevel t level =
     (if map_of level t = None \<or> get0 level t < nextLevel then AList.update t nextLevel level
      else level)"

subsection \<open>Layout of an imported graph\<close>

text \<open>The body of the loop over the targets in \<open>layoutGraph\<close>; the level of the current node
  is read in every round.\<close>

definition relax_import :: "string \<Rightarrow> string
    \<Rightarrow> (string \<times> nat) list \<times> (string \<times> int) list \<times> string list
    \<Rightarrow> (string \<times> nat) list \<times> (string \<times> int) list \<times> string list" where
  "relax_import current t st =
     (case st of (level, iq) \<Rightarrow> (raise (get0 level current + 1) t level, release t iq))"

lemma snd_fold_relax_import:
  "snd (fold (relax_import c) ts (level, iq)) = fold release ts iq"
  by (induction ts arbitrary: level iq) (auto simp: relax_import_def)

function import_loop :: "(string \<times> string list) list \<Rightarrow> string list \<Rightarrow> (string \<times> int) list
    \<Rightarrow> (string \<times> nat) list \<Rightarrow> (string \<times> nat) list" where
  "import_loop out queue indeg level =
     (case queue of
        [] \<Rightarrow> level
      | current # rest \<Rightarrow>
          (case fold (relax_import current) (targets_of out current) (level, indeg, rest) of
             (level', indeg', queue') \<Rightarrow> import_loop out queue' indeg' level'))"
  by pat_completeness auto
termination
proof (relation "measure (\<lambda>(out, queue, indeg, level). length queue + positives indeg)",
    goal_cases)
  case 1
  show ?case by simp
next
  case (2 out queue indeg level current rest level' iq indeg' queue')
  have "fold release (targets_of out current) (indeg, rest) = (indeg', queue')"
    using snd_fold_relax_import [of current "targets_of out current" level "(indeg, rest)"] 2
    by (simp add: snd_def split: prod.splits)
  from fold_release_measure [OF this] 2(1) show ?case by simp
qed

declare import_loop.simps [simp del]

text \<open>The edges are entered into the maps; an edge whose source is no node makes
  \<open>outgoing.get(edge.from)\<close> undefined, and the call of \<open>push\<close> on it throws: \<open>None\<close>.\<close>

fun import_edges :: "(string \<times> int) list \<times> (string \<times> string list) list \<Rightarrow> gedge list
    \<Rightarrow> ((string \<times> int) list \<times> (string \<times> string list) list) option" where
  "import_edges st [] = Some st"
| "import_edges st (e # es) =
     (case st of (indeg, out) \<Rightarrow>
        (case map_of out (from_id e) of
           None \<Rightarrow> None
         | Some ts \<Rightarrow>
             import_edges
               (AList.update (to_id e) (get0 indeg (to_id e) + 1) indeg,
                AList.update (from_id e) (ts @ [to_id e]) out) es))"

text \<open>The levels that \<open>layoutGraph\<close> computes.\<close>

definition import_levels :: "graph \<Rightarrow> (string \<times> nat) list option" where
  "import_levels g =
     (case import_edges (new_map (map (\<lambda>n. (node_id n, 0)) (nodes g)),
                         new_map (map (\<lambda>n. (node_id n, [])) (nodes g))) (edges g) of
        None \<Rightarrow> None
      | Some (indeg, out) \<Rightarrow>
          (let queue = filter (\<lambda>i. get0 indeg i = 0) (map node_id (nodes g))
           in Some (import_loop out queue indeg (fold (\<lambda>i level. AList.update i 0 level) queue []))))"

text \<open>The nodes of each level, in the order of the nodes: the map \<open>grouped\<close>.\<close>

definition group_by_level :: "(string \<times> nat) list \<Rightarrow> string list \<Rightarrow> (nat \<times> string list) list" where
  "group_by_level level ids =
     fold (\<lambda>i grouped. AList.update (get0 level i) (targets_of grouped (get0 level i) @ [i]) grouped)
       ids []"

definition import_node :: "(nat \<Rightarrow> nat \<Rightarrow> string) \<Rightarrow> (string \<times> gnode) list \<Rightarrow> nat
    \<Rightarrow> nat \<times> nat \<times> string \<Rightarrow> rf_node list" where
  "import_node gen nodesById index lane_l_id =
     (case lane_l_id of (lane, l, i) \<Rightarrow>
        (case map_of nodesById i of
           None \<Rightarrow> []
         | Some node \<Rightarrow>
             [\<lparr>rf_id = node_id node, node_type = ''promptNode'',
               position = (120 + real lane * 320, 100 + real l * 220),
               data = \<lparr>data_role = role node, data_label = label node,
                       data_content = content node,
                       listItems = normalizeListItems (gen index) [] (content node)\<rparr>\<rparr>]))"

text \<open>
  \<open>layoutGraph\<close>. Every node that is laid out draws the identifiers of its list items from a
  supply of its own, \<open>gen index\<close>. The identifiers in \<open>grouped\<close> are identifiers of nodes, so
  the lookup in \<open>nodesById\<close> never fails.
\<close>

definition layoutGraph :: "(nat \<Rightarrow> nat \<Rightarrow> string) \<Rightarrow> graph \<Rightarrow> (rf_node list \<times> rf_edge list) option" where
  "layoutGraph gen g =
     (case import_levels g of
        None \<Rightarrow> None
      | Some level \<Rightarrow>
          (let nodesById = new_map (map (\<lambda>n. (node_id n, n)) (nodes g));
               grouped = group_by_level level (map node_id (nodes g));
               placed = concat (map (\<lambda>l. map (\<lambda>(lane, i). (lane, l, i))
                                              (enumerate 0 (targets_of grouped l)))
                                  (sort (map fst grouped)));
               rfNodes = concat (map (\<lambda>(index, p). import_node gen nodesById index p)
                                   (enumerate 0 placed));
               rfEdges = map (\<lambda>(index, e).
                                \<lparr>edge_id = ''e-'' @ from_id e @ ''-'' @ to_id e @ ''-'' @ show_nat index,
                                 source = from_id e, target = to_id e,
                                 edge_type = ''smoothstep''\<rparr>)
                           (enumerate 0 (edges g))
           in Some (rfNodes, rfEdges)))"

subsection \<open>Re-layout of the canvas\<close>

datatype layout_mode = Vertical | Horizontal | Grid

text \<open>\<open>a.position.y - b.position.y || a.position.x - b.position.x\<close>\<close>

definition by_position :: "rf_node \<Rightarrow> rf_node \<Rightarrow> real" where
  "by_position a b =
     (if snd (position a) - snd (position b) \<noteq> 0 then snd (position a) - snd (position b)
      else fst (position a) - fst (position b))"

definition sortByCanvas :: "(string \<times> rf_node) list \<Rightarrow> string \<Rightarrow> string \<Rightarrow> real" where
  "sortByCanvas nodesById a b =
     (case (map_of nodesById a, map_of nodesById b) of
        (Some nodeA, Some nodeB) \<Rightarrow> by_position nodeA nodeB
      | _ \<Rightarrow> 0)"

text \<open>The edges whose two ends are nodes are entered into the maps; the others are skipped.\<close>

definition relayout_edge :: "(string \<times> rf_node) list \<Rightarrow> rf_edge
    \<Rightarrow> (string \<times> int) list \<times> (string \<times> string list) list
    \<Rightarrow> (string \<times> int) list \<times> (string \<times> string list) list" where
  "relayout_edge nodesById e st =
     (case st of (indeg, out) \<Rightarrow>
        if map_of nodesById (source e) = None \<or> map_of nodesById (target e) = None then st
        else (AList.update (target e) (get0 indeg (target e) + 1) indeg,
              AList.update (source e) (targets_of out (source e) @ [target e]) out))"

text \<open>The body of the loop over the targets in \<open>autoLayoutNodes\<close>; the level of the current
  node was read before the loop.\<close>

definition relax_canvas :: "nat \<Rightarrow> string
    \<Rightarrow> (string \<times> nat) list \<times> (string \<times> int) list \<times> string list
    \<Rightarrow> (string \<times> nat) list \<times> (string \<times> int) list \<times> string list" where
  "relax_canvas nextLevel t st = (case st of (level, iq) \<Rightarrow> (raise nextLevel t level, release t iq))"

lemma snd_fold_relax_canvas:
  "snd (fold (relax_canvas n) ts (level, iq)) = fold release ts iq"
  by (induction ts arbitrary: level iq) (auto simp: relax_canvas_def)

function canvas_loop :: "(string \<times> string list) list \<Rightarrow> string list \<Rightarrow> (string \<times> int) list
    \<Rightarrow> (string \<times> nat) list \<Rightarrow> nat \<Rightarrow> (string \<times> nat) list \<times> nat" where
  "canvas_loop out queue indeg level maxLevel =
     (case queue of
        [] \<Rightarrow> (level, maxLevel)
      | current # rest \<Rightarrow>
          (case fold (relax_canvas (get0 level current + 1)) (targets_of out current)
                  (level, indeg, rest) of
             (level', indeg', queue') \<Rightarrow>
               canvas_loop out queue' indeg' level' (max maxLevel (get0 level current))))"
  by pat_completeness auto
termination
proof (relation "measure (\<lambda>(out, queue, indeg, level, maxLevel). length queue + positives indeg)",
    goal_cases)
  case 1
  show ?case by simp
next
  case (2 out queue indeg level maxLevel current rest level' iq indeg' queue')
  have "fold release (targets_of out current) (indeg, rest) = (indeg', queue')"
    using snd_fold_relax_canvas [of "get0 level current + 1" "targets_of out current" level
        "(indeg, rest)"] 2
    by (simp add: snd_def split: prod.splits)
  from fold_release_measure [OF this] 2(1) show ?case by simp
qed

declare canvas_loop.simps [simp del]

text \<open>The levels that \<open>autoLayoutNodes\<close> computes, the nodes without a level after the loop
  included.\<close>

definition canvas_levels :: "rf_node list \<Rightarrow> rf_edge list \<Rightarrow> (string \<times> nat) list" where
  "canvas_levels currentNodes currentEdges =
     (let nodesById = new_map (map (\<lambda>n. (rf_id n, n)) currentNodes);
          (indeg, out) = fold (relayout_edge nodesById) currentEdges
                           (new_map (map (\<lambda>n. (rf_id n, 0)) currentNodes),
                            new_map (map (\<lambda>n. (rf_id n, [])) currentNodes));
          queue = js_sort (sortByCanvas nodesById)
                    (filter (\<lambda>i. get0 indeg i = 0) (map rf_id currentNodes));
          (level, maxLevel) =
             canvas_loop out queue indeg (fold (\<lambda>i level. AList.update i 0 level) queue []) 0;
          unresolved = js_sort (sortByCanvas nodesById)
                         (filter (\<lambda>i. map_of level i = None) (map rf_id currentNodes))
      in fold (\<lambda>(index, i) level. AList.update i (maxLevel + 1 + index) level)
           (enumerate 0 unresolved) level)"

text \<open>\<open>Math.ceil(Math.sqrt(n))\<close> for the length of an array: the least \<open>k\<close> whose square
  reaches \<open>n\<close>.\<close>

definition ceil_sqrt :: "nat \<Rightarrow> nat" where
  "ceil_sqrt n = (case find (\<lambda>k. n \<le> k * k) [0 ..< Suc n] of Some k \<Rightarrow> k | None \<Rightarrow> n)"

definition place :: "(string \<times> real \<times> real) list \<Rightarrow> rf_node \<Rightarrow> rf_node" where
  "place positionById node =
     node\<lparr>position := (case map_of positionById (rf_id node) of
                         Some p \<Rightarrow> p | None \<Rightarrow> position node)\<rparr>"

definition autoLayoutNodes :: "rf_node list \<Rightarrow> rf_edge list \<Rightarrow> layout_mode \<Rightarrow> rf_node list" where
  "autoLayoutNodes currentNodes currentEdges mode =
     (if currentNodes = [] then currentNodes
      else
        (let level = canvas_levels currentNodes currentEdges;
             nodesById = new_map (map (\<lambda>n. (rf_id n, n)) currentNodes)
         in if mode = Grid then
              (let sorted = js_sort (\<lambda>a b. if int (get0 level (rf_id a)) - int (get0 level (rf_id b)) \<noteq> 0
                                            then real_of_int (int (get0 level (rf_id a))
                                                              - int (get0 level (rf_id b)))
                                            else by_position a b) currentNodes;
                   columns = max 1 (ceil_sqrt (length sorted));
                   positionById =
                     new_map (map (\<lambda>(index, node).
                                     (rf_id node,
                                      (100 + real (index mod columns) * 320,
                                       100 + real (index div columns) * 220)))
                                (enumerate 0 sorted))
               in map (place positionById) currentNodes)
            else
              (let grouped = map (\<lambda>(l, ids). (l, js_sort (sortByCanvas nodesById) ids))
                               (group_by_level level (map rf_id currentNodes));
                   positionById =
                     fold (\<lambda>l positionById.
                             fold (\<lambda>(lane, i).
                                     AList.update i
                                       (if mode = Horizontal
                                        then (100 + real l * 320, 100 + real lane * 220)
                                        else (100 + real lane * 320, 100 + real l * 220)))
                               (enumerate 0 (targets_of grouped l)) positionById)
                       (sort (map fst grouped)) []
               in map (place positionById) currentNodes)))"

text \<open>\<open>applyLayout\<close>: the nodes of the canvas are replaced by the laid out ones; the edges are
  only read.\<close>

record flow_state =
  flow_nodes :: "rf_node list"
  flow_edges :: "rf_edge list"

definition applyLayout :: "layout_mode \<Rightarrow> flow_state \<Rightarrow> flow_state" where
  "applyLayout mode st = st\<lparr>flow_nodes := autoLayoutNodes (flow_nodes st) (flow_edges st) mode\<rparr>"

subsection \<open>Editing the list of a node\<close>

text \<open>\<open>updateNodeData\<close>: the patch is spread over the data of the node with the given
  identifier.\<close>

definition updateNodeData :: "string \<Rightarrow> (node_data \<Rightarrow> node_data) \<Rightarrow> rf_node list \<Rightarrow> rf_node list" where
  "updateNodeData nodeId patch current =
     map (\<lambda>node. if rf_id node = nodeId then node\<lparr>data := patch (data node)\<rparr> else node) current"

definition updateNodeList :: "(nat \<Rightarrow> string) \<Rightarrow> (nat \<Rightarrow> string) \<Rightarrow> string \<Rightarrow> raw_item list
    \<Rightarrow> rf_node list \<Rightarrow> rf_node list" where
  "updateNodeList gen gen' nodeId items current =
     (let safeItems = normalizeListItems gen items []
      in updateNodeData nodeId
           (\<lambda>d. d\<lparr>listItems := safeItems,
                   data_content := formatNumberedList gen' (map of_item safeItems)\<rparr>) current)"

section \<open>Sequencer\<close>

record step_item =
  step :: nat
  step_id :: string
  step_role :: string
  step_label :: string
  step_content :: string

record prompt_output =
  sequence :: "step_item list"
  structuredPrompt :: string
  out_graph :: graph

text \<open>The edges are entered into the maps: the targets of every source, and the in-degree
  of every target.\<close>

definition sequencer_edge :: "rf_edge
    \<Rightarrow> (string \<times> string list) list \<times> (string \<times> int) list
    \<Rightarrow> (string \<times> string list) list \<times> (string \<times> int) list" where
  "sequencer_edge e st =
     (case st of (out, indeg) \<Rightarrow>
        (AList.update (source e) (targets_of out (source e) @ [target e]) out,
         AList.update (target e) (get0 indeg (target e) + 1) indeg))"

text \<open>
  The recursive closure \<open>walk\<close>, with the calls that are still to be made kept on a stack:
  \<open>walk(id)\<close> followed by the calls \<open>todo\<close> is \<open>walk_all\<close> of \<open>id # todo\<close>, and the calls
  \<open>targets.forEach(walk)\<close> that a node makes go on top of the stack. The state is the set
  \<open>visited\<close> (in insertion order) and the list \<open>ordered\<close>.
\<close>

function walk_all :: "(string \<times> rf_node) list \<Rightarrow> (string \<times> string list) list \<Rightarrow> string list
    \<Rightarrow> string list \<times> rf_node list \<Rightarrow> string list \<times> rf_node list" where
  "walk_all nodeMap out [] st = st"
| "walk_all nodeMap out (i # todo) (visited, ordered) =
     (if i \<in> set visited then walk_all nodeMap out todo (visited, ordered)
      else
        (case map_of nodeMap i of
           None \<Rightarrow> walk_all nodeMap out todo (visited @ [i], ordered)
         | Some node \<Rightarrow>
             walk_all nodeMap out
               (js_sort (sortByCanvas nodeMap) (targets_of out i) @ todo)
               (visited @ [i], ordered @ [node])))"
  by pat_completeness auto
termination
proof (relation "measures [\<lambda>(nodeMap, out, todo, visited, ordered).
                              card (fst ` set nodeMap - set visited),
                            \<lambda>(nodeMap, out, todo, visited, ordered). length todo]",
    goal_cases)
  case 1
  show ?case by simp
next
  case (2 nodeMap out i todo visited ordered)
  then show ?case by simp
next
  case (3 nodeMap out i todo visited ordered)
  then have "i \<notin> fst ` set nodeMap" by (simp add: map_of_eq_None_iff)
  then have "fst ` set nodeMap - set (visited @ [i]) = fst ` set nodeMap - set visited" by auto
  then show ?case by simp
next
  case (4 nodeMap out i todo visited ordered node)
  then have "i \<in> fst ` set nodeMap" by (metis map_of_eq_None_iff option.distinct(1))
  then have "fst ` set nodeMap - set (visited @ [i]) \<subset> fst ` set nodeMap - set visited"
    using 4(1) by auto
  then have "card (fst ` set nodeMap - set (visited @ [i])) < card (fst ` set nodeMap - set visited)"
    by (intro psubset_card_mono) auto
  then show ?case by simp
qed

definition buildPromptOutput :: "rf_node list \<Rightarrow> rf_edge list \<Rightarrow> prompt_output" where
  "buildPromptOutput ns es =
     (if ns = [] then
        \<lparr>sequence = [], structuredPrompt = [], out_graph = \<lparr>nodes = [], edges = []\<rparr>\<rparr>
      else
        (let nodeMap = new_map (map (\<lambda>n. (rf_id n, n)) ns);
             (out, indeg) = fold sequencer_edge es ([], new_map (map (\<lambda>n. (rf_id n, 0)) ns));
             starts = js_sort by_position (filter (\<lambda>n. get0 indeg (rf_id n) = 0) ns);
             ordered = snd (walk_all nodeMap out (map rf_id starts @ map rf_id ns) ([], []));
             sequence = map (\<lambda>(index, node).
                               \<lparr>step = index + 1, step_id = rf_id node,
                                step_role = data_role (data node),
                                step_label = data_label (data node),
                                step_content = data_content (data node)\<rparr>)
                          (enumerate 0 ordered)
         in \<lparr>sequence = sequence,
             structuredPrompt =
               join [CHR 0x0A, CHR 0x0A]
                 (map (\<lambda>item. ''['' @ show_nat (step item) @ ''] '' @ toUpperCase (step_role item)
                                @ [CHR 0x0A]
                                @ (if step_content item = [] then ''(empty)''
                                   else step_content item))
                    sequence),
             out_graph =
               \<lparr>nodes = map (\<lambda>node. \<lparr>node_id = rf_id node, role = data_role (data node),
                                        label = data_label (data node),
                                        content = data_content (data node)\<rparr>) ns,
                edges = map (\<lambda>edge. \<lparr>from_id = source edge, to_id = target edge\<rparr>) es\<rparr>\<rparr>))"

section \<open>Properties of the layout engine and of list editing\<close>

subsection \<open>Re-layout moves nodes and nothing else\<close>

text \<open>
  C9: for every node list, edge list and layout mode, \<open>autoLayoutNodes\<close> returns the nodes
  of its input in the same order with the same identifier, type and data (role, label, content
  and list items): only the position of a node may differ. The edges are an input that is only
  read, and \<open>applyLayout\<close> leaves the edges of the canvas as they are.
\<close>

theorem relayout_only_moves:
  "map rf_id (autoLayoutNodes ns es mode) = map rf_id ns
   \<and> map data (autoLayoutNodes ns es mode) = map data ns
   \<and> map node_type (autoLayoutNodes ns es mode) = map node_type ns
   \<and> flow_edges (applyLayout mode st) = flow_edges st
   \<and> flow_nodes (applyLayout mode st) = autoLayoutNodes (flow_nodes st) (flow_edges st) mode"
  by (simp add: autoLayoutNodes_def applyLayout_def Let_def place_def comp_def)

subsection \<open>Content and list items of a node\<close>

lemma set_update_subset: "set (AList.update k v m) \<subseteq> insert (k, v) (set m)"
  by (induction m) auto

lemma set_fold_update:
  "set (fold (\<lambda>(k, v) m. AList.update k v m) es m) \<subseteq> set es \<union> set m"
proof (induction es arbitrary: m)
  case Nil
  then show ?case by simp
next
  case (Cons e es)
  obtain k v where e: "e = (k, v)" by (cases e)
  have "set (fold (\<lambda>(k, v) m. AList.update k v m) es (AList.update k v m))
          \<subseteq> set es \<union> set (AList.update k v m)" by (rule Cons.IH)
  then show ?case using set_update_subset [of k v m] by (auto simp: e)
qed

lemma new_map_Some: "map_of (new_map es) k = Some v \<Longrightarrow> (k, v) \<in> set es"
  using set_fold_update [of es "[]"] by (auto simp: new_map_def dest: map_of_SomeD)

lemma normalize_normalized:
  "list_all2 (\<lambda>a b. item_depth a = item_depth b \<and> trim (item_text a) = trim (item_text b))
     (normalizeListItems gen' (map of_item (normalizeListItems gen items [])) [])
     (normalizeListItems gen'' items [])"
proof (cases "items = []")
  case True
  then show ?thesis
    by (simp add: normalizeListItems_def content_lines_def trim_def createListItem_def
        normalize_item_def of_item_def clamp_level_def item_depth_def)
next
  case False
  have clamp2: "clamp_level (Some (clamp_level l)) = clamp_level l" for l
    by (auto simp: clamp_level_def split: option.splits)
  have n1: "normalizeListItems gen items []
      = map (\<lambda>(k, item). normalize_item gen k item) (enumerate 0 items)"
    and n2: "normalizeListItems gen'' items []
      = map (\<lambda>(k, item). normalize_item gen'' k item) (enumerate 0 items)"
    using False by (simp_all add: normalizeListItems_items)
  have "map of_item (normalizeListItems gen items []) \<noteq> []"
    using False by (simp add: n1 enumerate_eq_Nil)
  then have n3: "normalizeListItems gen' (map of_item (normalizeListItems gen items [])) []
      = map (\<lambda>(k, item). normalize_item gen' k item)
          (enumerate 0 (map of_item (normalizeListItems gen items [])))"
    by (rule normalizeListItems_items)
  show ?thesis
    unfolding n3 unfolding n1 n2
    by (auto simp: list_all2_conv_all_nth nth_enumerate_eq
        normalize_item_def of_item_def createListItem_def clamp2 item_depth_def
        split: raw_item.splits)
qed

lemma format_normalized:
  "formatNumberedList gen' (map of_item (normalizeListItems gen items []))
     = formatNumberedList gen'' items"
  unfolding formatNumberedList_def
  using render_items_cong [OF normalize_normalized [of gen' gen items gen'']] by simp

text \<open>
  C2, as the code has it: every node that \<open>updateNodeList\<close> updates has as content exactly the
  rendering of its list items, whatever identifiers the rendering draws. A node that
  \<open>layoutGraph\<close> produces carries the content of the graph node of the same identifier
  unchanged, and its list items are read from that content by \<open>normalizeListItems\<close> with an
  empty item sequence.
\<close>

theorem content_of_produced_nodes:
  "(\<forall>n \<in> set (updateNodeList gen gen' nodeId items current).
      rf_id n = nodeId \<longrightarrow>
        data_content (data n) = formatNumberedList gen'' (map of_item (listItems (data n))))
   \<and> (\<forall>rfNodes rfEdges. layoutGraph gens g = Some (rfNodes, rfEdges) \<longrightarrow>
        (\<forall>n \<in> set rfNodes. \<exists>m \<in> set (nodes g). \<exists>k.
           rf_id n = node_id m \<and> data_role (data n) = role m \<and> data_label (data n) = label m
           \<and> data_content (data n) = content m
           \<and> listItems (data n) = normalizeListItems (gens k) [] (content m)))"
proof (intro conjI allI impI ballI)
  fix n assume "n \<in> set (updateNodeList gen gen' nodeId items current)" "rf_id n = nodeId"
  then obtain n0 where "n = n0\<lparr>data := (data n0)\<lparr>listItems := normalizeListItems gen items [],
      data_content := formatNumberedList gen' (map of_item (normalizeListItems gen items []))\<rparr>\<rparr>"
    by (auto simp: updateNodeList_def updateNodeData_def Let_def)
  then show "data_content (data n) = formatNumberedList gen'' (map of_item (listItems (data n)))"
    using format_normalized [of gen' gen items] format_normalized [of gen'' gen items] by simp
next
  fix rfNodes rfEdges n
  assume l: "layoutGraph gens g = Some (rfNodes, rfEdges)" and n: "n \<in> set rfNodes"
  let ?byId = "new_map (map (\<lambda>n. (node_id n, n)) (nodes g))"
  from l n obtain index p where "n \<in> set (import_node gens ?byId index p)"
    by (auto simp: layoutGraph_def Let_def split: option.splits)
  then have mem: "n \<in> set (import_node gens ?byId index p)" .
  obtain lane lv i where p: "p = (lane, lv, i)" by (cases p) auto
  from mem obtain m where m: "map_of ?byId i = Some m"
    by (cases "map_of ?byId i") (auto simp: import_node_def p)
  from mem have neq: "n = \<lparr>rf_id = node_id m, node_type = ''promptNode'',
               position = (120 + real lane * 320, 100 + real lv * 220),
               data = \<lparr>data_role = role m, data_label = label m, data_content = content m,
                       listItems = normalizeListItems (gens index) [] (content m)\<rparr>\<rparr>"
    by (simp add: import_node_def p m)
  from new_map_Some [OF m] have "m \<in> set (nodes g)" by auto
  then show "\<exists>m \<in> set (nodes g). \<exists>k.
           rf_id n = node_id m \<and> data_role (data n) = role m \<and> data_label (data n) = label m
           \<and> data_content (data n) = content m
           \<and> listItems (data n) = normalizeListItems (gens k) [] (content m)"
    using neq by auto
qed

definition sample_gens :: "nat \<Rightarrow> nat \<Rightarrow> string" where
  "sample_gens i k = ''li-'' @ show_nat i @ ''-'' @ show_nat k"

definition scenario_graph :: graph where
  "scenario_graph =
     \<lparr>nodes =
        [\<lparr>node_id = ''import-1'', role = ''system'', label = ''System'',
          content = ''1. Be concise.''\<rparr>,
         \<lparr>node_id = ''import-2'', role = ''user'', label = ''User'',
          content = ''1. Ask a question.''\<rparr>],
      edges = [\<lparr>from_id = ''import-1'', to_id = ''import-2''\<rparr>]\<rparr>"

definition sample_node :: rf_node where
  "sample_node =
     \<lparr>rf_id = ''n1'', node_type = ''promptNode'', position = (120, 120),
      data = \<lparr>data_role = ''system'', data_label = ''System'', data_content = [],
              listItems = [\<lparr>item_id = ''li-0'', item_text = [], item_level = 1\<rparr>]\<rparr>\<rparr>"

definition edited_nodes :: "rf_node list" where
  "edited_nodes =
     updateNodeList sample_gen sample_gen ''n1''
       [ItemRecord (Some ''li-0'') (Some ''Be concise.'') (Some 1)] [sample_node]"

definition scenario_layout :: "rf_node list \<times> rf_edge list" where
  "scenario_layout = the (layoutGraph sample_gens scenario_graph)"

theorem content_of_produced_nodes_witness:
  "hd edited_nodes \<in> set edited_nodes \<and> rf_id (hd edited_nodes) = ''n1''
   \<and> data_content (data (hd edited_nodes)) = ''1 Be concise.''
   \<and> data_content (data (hd edited_nodes))
       = formatNumberedList sample_gen (map of_item (listItems (data (hd edited_nodes))))
   \<and> layoutGraph sample_gens scenario_graph = Some (fst scenario_layout, snd scenario_layout)
   \<and> hd (fst scenario_layout) \<in> set (fst scenario_layout)
   \<and> (\<exists>m \<in> set (nodes scenario_graph). \<exists>k.
         rf_id (hd (fst scenario_layout)) = node_id m
         \<and> data_role (data (hd (fst scenario_layout))) = role m
         \<and> data_label (data (hd (fst scenario_layout))) = label m
         \<and> data_content (data (hd (fst scenario_layout))) = content m
         \<and> listItems (data (hd (fst scenario_layout))) = normalizeListItems (sample_gens k) [] (content m))"
proof -
  have 1: "hd edited_nodes \<in> set edited_nodes \<and> rf_id (hd edited_nodes) = ''n1''
      \<and> data_content (data (hd edited_nodes)) = ''1 Be concise.''"
    by code_simp
  have 2: "layoutGraph sample_gens scenario_graph = Some (fst scenario_layout, snd scenario_layout)"
    by code_simp
  have 3: "hd (fst scenario_layout) \<in> set (fst scenario_layout)" by code_simp
  from content_of_produced_nodes [of sample_gen sample_gen "''n1''"
      "[ItemRecord (Some ''li-0'') (Some ''Be concise.'') (Some 1)]" "[sample_node]" sample_gen
      sample_gens scenario_graph] 1 2 3
  show ?thesis unfolding edited_nodes_def [symmetric] by blast
qed

text \<open>
  C2 as stated fails for \<open>layoutGraph\<close>: the graph that the importer builds from the
  two-parent scenario passes the validator, and its first node is laid out with the content
  "1. Be concise." and one list item, which renders as "1 Be concise.", without the full stop
  after the number.
\<close>

theorem content_of_produced_nodes_counterexample:
  "(\<lambda>s. None :: unit json option) scenario_text = None
   \<and> parsePromptTextToGraph (\<lambda>s. None :: unit json option) scenario_text = ImportGraph scenario_graph
   \<and> validateGeneratedGraph scenario_graph = None
   \<and> layoutGraph sample_gens scenario_graph = Some (fst scenario_layout, snd scenario_layout)
   \<and> data_content (data (hd (fst scenario_layout))) = ''1. Be concise.''
   \<and> formatNumberedList sample_gen (map of_item (listItems (data (hd (fst scenario_layout)))))
       = ''1 Be concise.''
   \<and> data_content (data (hd (fst scenario_layout)))
       \<noteq> formatNumberedList sample_gen (map of_item (listItems (data (hd (fst scenario_layout)))))"
  by code_simp

section \<open>Properties of the sequencer\<close>

lemma fst_set_update: "fst ` set (AList.update k v m) = insert k (fst ` set m)"
  by (simp add: dom_update)

lemma keys_fold_update:
  "fst ` set (fold (\<lambda>(k, v) m. AList.update k v m) es m) = fst ` set es \<union> fst ` set m"
proof (induction es arbitrary: m)
  case Nil
  then show ?case by simp
next
  case (Cons e es)
  obtain k v where e: "e = (k, v)" by (cases e)
  show ?case by (simp add: e Cons.IH fst_set_update)
qed

lemma keys_new_map: "fst ` set (new_map es) = fst ` set es"
  by (simp add: new_map_def keys_fold_update)

lemma map_of_new_map_None: "map_of (new_map es) k = None \<longleftrightarrow> k \<notin> fst ` set es"
  by (simp add: map_of_eq_None_iff keys_new_map)

text \<open>The walk keeps \<open>visited\<close> free of repetitions, records in \<open>ordered\<close> exactly the
  visited identifiers that are nodes, in the order of the visits, and visits every identifier it
  is asked to.\<close>

lemma walk_all_visits:
  assumes "\<forall>i n. map_of nodeMap i = Some n \<longrightarrow> rf_id n = i"
    and "distinct visited"
    and "map rf_id ordered = filter (\<lambda>i. map_of nodeMap i \<noteq> None) visited"
    and "walk_all nodeMap out todo (visited, ordered) = (visited', ordered')"
  shows "distinct visited'
    \<and> map rf_id ordered' = filter (\<lambda>i. map_of nodeMap i \<noteq> None) visited'
    \<and> set todo \<union> set visited \<subseteq> set visited'"
  using assms
proof (induction nodeMap out todo "(visited, ordered)" arbitrary: visited ordered
    rule: walk_all.induct)
  case (1 nodeMap out)
  then show ?case by simp
next
  case (2 nodeMap out i todo visited ordered)
  show ?case
  proof (cases "i \<in> set visited")
    case True
    with "2.prems" have w: "walk_all nodeMap out todo (visited, ordered) = (visited', ordered')"
      by simp
    from "2.hyps"(1) [OF True "2.prems"(1,2,3) w] True show ?thesis by auto
  next
    case False
    show ?thesis
    proof (cases "map_of nodeMap i")
      case None
      with False "2.prems" have w:
        "walk_all nodeMap out todo (visited @ [i], ordered) = (visited', ordered')" by simp
      have d: "distinct (visited @ [i])" using False "2.prems"(2) by simp
      have m: "map rf_id ordered = filter (\<lambda>i. map_of nodeMap i \<noteq> None) (visited @ [i])"
        using None "2.prems"(3) by simp
      from "2.hyps"(2) [OF False None "2.prems"(1) d m w] show ?thesis by auto
    next
      case (Some node)
      let ?todo = "js_sort (sortByCanvas nodeMap) (targets_of out i) @ todo"
      from Some False "2.prems" have w:
        "walk_all nodeMap out ?todo (visited @ [i], ordered @ [node]) = (visited', ordered')"
        by simp
      have d: "distinct (visited @ [i])" using False "2.prems"(2) by simp
      have "rf_id node = i" using Some "2.prems"(1) by simp
      then have m: "map rf_id (ordered @ [node])
          = filter (\<lambda>i. map_of nodeMap i \<noteq> None) (visited @ [i])"
        using Some "2.prems"(3) by simp
      from "2.hyps"(3) [OF False Some "2.prems"(1) d m w] show ?thesis by auto
    qed
  qed
qed

lemma map_snd_enumerate_comp: "map (\<lambda>x. f (snd x)) (enumerate n xs) = map f xs"
  by (induction xs arbitrary: n) auto

lemma sequence_ids:
  assumes "ns \<noteq> []"
  shows "map step_id (sequence (buildPromptOutput ns es))
     = map rf_id (snd (walk_all (new_map (map (\<lambda>n. (rf_id n, n)) ns))
         (fst (fold sequencer_edge es ([], new_map (map (\<lambda>n. (rf_id n, 0)) ns))))
         (map rf_id (js_sort by_position
            (filter (\<lambda>n. get0 (snd (fold sequencer_edge es
                ([], new_map (map (\<lambda>n. (rf_id n, 0)) ns)))) (rf_id n) = 0) ns)) @ map rf_id ns)
         ([], [])))"
  using assms
  by (simp add: buildPromptOutput_def Let_def split_def comp_def map_snd_enumerate_comp)

text \<open>
  C4, as the code has it: for every node list and edge list, valid or not, connected or not,
  cyclic or not, every node identifier appears exactly once in the sequence: the identifiers
  of the sequence are pairwise different and are exactly the identifiers of the nodes. The
  length of the sequence is the number of different node identifiers; it equals
  \<open>nodes.length\<close> when the node identifiers are pairwise different.
\<close>

theorem sequence_covers_nodes:
  "distinct (map step_id (sequence (buildPromptOutput ns es)))
   \<and> set (map step_id (sequence (buildPromptOutput ns es))) = set (map rf_id ns)
   \<and> length (sequence (buildPromptOutput ns es)) = card (set (map rf_id ns))
   \<and> (distinct (map rf_id ns) \<longrightarrow> length (sequence (buildPromptOutput ns es)) = length ns)"
proof (cases "ns = []")
  case True
  then show ?thesis by (simp add: buildPromptOutput_def)
next
  case False
  define nodeMap where "nodeMap = new_map (map (\<lambda>n. (rf_id n, n)) ns)"
  define out where "out = fst (fold sequencer_edge es ([], new_map (map (\<lambda>n. (rf_id n, 0)) ns)))"
  define todo where "todo = map rf_id (js_sort by_position
            (filter (\<lambda>n. get0 (snd (fold sequencer_edge es
                ([], new_map (map (\<lambda>n. (rf_id n, 0)) ns)))) (rf_id n) = 0) ns)) @ map rf_id ns"
  obtain visited ordered where w: "walk_all nodeMap out todo ([], []) = (visited, ordered)"
    by (cases "walk_all nodeMap out todo ([], [])")
  have ids: "map step_id (sequence (buildPromptOutput ns es)) = map rf_id ordered"
    using sequence_ids [OF False, of es] w unfolding nodeMap_def out_def todo_def by simp
  have wf: "\<forall>i n. map_of nodeMap i = Some n \<longrightarrow> rf_id n = i"
    unfolding nodeMap_def by (auto dest!: new_map_Some)
  from walk_all_visits [OF wf _ _ w]
  have d: "distinct visited"
    and m: "map rf_id ordered = filter (\<lambda>i. map_of nodeMap i \<noteq> None) visited"
    and s: "set todo \<subseteq> set visited" by simp_all
  have keys: "map_of nodeMap i \<noteq> None \<longleftrightarrow> i \<in> set (map rf_id ns)" for i
    unfolding nodeMap_def by (simp add: map_of_new_map_None image_image)
  have 1: "distinct (map rf_id ordered)" unfolding m using d by simp
  have "set (map rf_id ns) \<subseteq> set visited" using s by (auto simp: todo_def)
  then have 2: "set (map rf_id ordered) = set (map rf_id ns)"
    unfolding m using keys by auto
  have 3: "length (sequence (buildPromptOutput ns es)) = card (set (map rf_id ns))"
    using 1 2 ids by (metis distinct_card length_map)
  have 4: "distinct (map rf_id ns) \<longrightarrow> length (sequence (buildPromptOutput ns es)) = length ns"
    using 3 by (metis distinct_card length_map)
  from 1 2 3 4 show ?thesis unfolding ids by blast
qed

definition node_at :: "string \<Rightarrow> real \<Rightarrow> rf_node" where
  "node_at i y =
     \<lparr>rf_id = i, node_type = ''promptNode'', position = (0, y),
      data = \<lparr>data_role = ''user'', data_label = ''User'', data_content = ''1 x'',
              listItems = [\<lparr>item_id = ''li-0'', item_text = ''x'', item_level = 1\<rparr>]\<rparr>\<rparr>"

definition edge_between :: "string \<Rightarrow> string \<Rightarrow> rf_edge" where
  "edge_between a b = \<lparr>edge_id = ''e-'' @ a @ ''-'' @ b, source = a, target = b,
                        edge_type = ''smoothstep''\<rparr>"

theorem sequence_covers_nodes_witness:
  "distinct (map rf_id [node_at ''a'' 0, node_at ''b'' 100])
   \<and> length (sequence (buildPromptOutput [node_at ''a'' 0, node_at ''b'' 100]
                 [edge_between ''b'' ''a''])) = length [node_at ''a'' 0, node_at ''b'' 100]
   \<and> map step_id (sequence (buildPromptOutput [node_at ''a'' 0, node_at ''b'' 100]
                 [edge_between ''b'' ''a''])) = [''b'', ''a'']"
proof -
  have d: "distinct (map rf_id [node_at ''a'' 0, node_at ''b'' 100])"
    by (simp add: node_at_def)
  have m: "map step_id (sequence (buildPromptOutput [node_at ''a'' 0, node_at ''b'' 100]
                 [edge_between ''b'' ''a''])) = [''b'', ''a'']"
    by code_simp
  from sequence_covers_nodes [of "[node_at ''a'' 0, node_at ''b'' 100]" "[edge_between ''b'' ''a'']"]
    d m show ?thesis by blast
qed

text \<open>
  C4 as stated fails when two nodes share an identifier: the map of the nodes keeps one node
  per identifier, so of two nodes with the identifier a only one is in the sequence.
\<close>

theorem sequence_covers_nodes_counterexample:
  "length (sequence (buildPromptOutput [node_at ''a'' 0, node_at ''a'' 100] [])) = 1
   \<and> length [node_at ''a'' 0, node_at ''a'' 100] = 2"
  by code_simp

section \<open>Properties of the leveling\<close>

subsection \<open>Raising the level of a target\<close>

lemma get0_raise:
  "1 \<le> n \<Longrightarrow> get0 (raise n t level) x = (if x = t then max (get0 level t) n else get0 level x)"
  by (auto simp: raise_def get0_update) (auto simp: get0_def)

definition has_level :: "(string \<times> nat) list \<Rightarrow> string \<Rightarrow> bool" where
  "has_level level x \<longleftrightarrow> map_of level x \<noteq> None"

lemma has_raise: "has_level (raise n t level) x \<longleftrightarrow> x = t \<or> has_level level x"
  by (auto simp: has_level_def raise_def update_conv')

lemma get0_fold_raise:
  "1 \<le> n \<Longrightarrow> get0 (fold (raise n) ts level) x
     = (if x \<in> set ts then max (get0 level x) n else get0 level x)"
  by (induction ts arbitrary: level) (auto simp: get0_raise)

lemma has_fold_raise:
  "has_level (fold (raise n) ts level) x \<longleftrightarrow> x \<in> set ts \<or> has_level level x"
  by (induction ts arbitrary: level) (auto simp: has_raise)

text \<open>In \<open>layoutGraph\<close> the level of the current node is read in every round; that makes
  no difference as long as the node is not its own target.\<close>

lemma fold_raise_current:
  "c \<notin> set ts \<Longrightarrow> fold (\<lambda>t level. raise (get0 level c + 1) t level) ts level
     = fold (raise (get0 level c + 1)) ts level"
proof (induction ts arbitrary: level)
  case Nil
  then show ?case by simp
next
  case (Cons t ts)
  then have "get0 (raise (get0 level c + 1) t level) c = get0 level c"
    by (simp add: get0_raise)
  with Cons show ?case by simp
qed

lemma has_fold_raise_current:
  "has_level (fold (\<lambda>t level. raise (get0 level c + 1) t level) ts level) x
     \<longleftrightarrow> x \<in> set ts \<or> has_level level x"
  by (induction ts arbitrary: level) (auto simp: has_raise)

subsection \<open>The loops of the layouts follow the processing order\<close>

lemma fst_fold_relax_import:
  "fst (fold (relax_import c) ts (level, iq))
     = fold (\<lambda>t level. raise (get0 level c + 1) t level) ts level"
  by (induction ts arbitrary: level iq) (auto simp: relax_import_def)

lemma fst_fold_relax_canvas:
  "fst (fold (relax_canvas n) ts (level, iq)) = fold (raise n) ts level"
  by (induction ts arbitrary: level iq) (auto simp: relax_canvas_def)

lemma import_loop_order:
  "import_loop out queue indeg level
     = fold (\<lambda>c. fold (\<lambda>t level. raise (get0 level c + 1) t level) (targets_of out c))
         (kahn_order out queue indeg) level"
proof (induction out queue indeg arbitrary: level rule: kahn_order.induct)
  case (1 out queue indeg)
  show ?case
  proof (cases queue)
    case Nil
    then show ?thesis by (subst import_loop.simps) (simp add: kahn_order_Nil)
  next
    case (Cons c rest)
    obtain i' q' where f: "fold release (targets_of out c) (indeg, rest) = (i', q')"
      by (cases "fold release (targets_of out c) (indeg, rest)")
    define level' where
      "level' = fold (\<lambda>t level. raise (get0 level c + 1) t level) (targets_of out c) level"
    have r: "fold (relax_import c) (targets_of out c) (level, indeg, rest) = (level', i', q')"
      using fst_fold_relax_import [of c "targets_of out c" level "(indeg, rest)"]
        snd_fold_relax_import [of c "targets_of out c" level "(indeg, rest)"] f
      by (simp add: level'_def prod_eq_iff)
    have "import_loop out q' i' level'
        = fold (\<lambda>c. fold (\<lambda>t level. raise (get0 level c + 1) t level) (targets_of out c))
            (kahn_order out q' i') level'"
      using "1.IH" [OF Cons f [symmetric]] .
    then show ?thesis
      unfolding Cons
      by (subst import_loop.simps) (simp add: r kahn_order_Cons [OF f] level'_def)
  qed
qed

lemma canvas_loop_order:
  "fst (canvas_loop out queue indeg level maxLevel)
     = fold (\<lambda>c level. fold (raise (get0 level c + 1)) (targets_of out c) level)
         (kahn_order out queue indeg) level"
proof (induction out queue indeg arbitrary: level maxLevel rule: kahn_order.induct)
  case (1 out queue indeg)
  show ?case
  proof (cases queue)
    case Nil
    then show ?thesis by (subst canvas_loop.simps) (simp add: kahn_order_Nil)
  next
    case (Cons c rest)
    obtain i' q' where f: "fold release (targets_of out c) (indeg, rest) = (i', q')"
      by (cases "fold release (targets_of out c) (indeg, rest)")
    define level' where "level' = fold (raise (get0 level c + 1)) (targets_of out c) level"
    have r: "fold (relax_canvas (get0 level c + 1)) (targets_of out c) (level, indeg, rest)
        = (level', i', q')"
      using fst_fold_relax_canvas [of "get0 level c + 1" "targets_of out c" level "(indeg, rest)"]
        snd_fold_relax_canvas [of "get0 level c + 1" "targets_of out c" level "(indeg, rest)"] f
      by (simp add: level'_def prod_eq_iff)
    have "fst (canvas_loop out q' i' level' (max maxLevel (get0 level c)))
        = fold (\<lambda>c level. fold (raise (get0 level c + 1)) (targets_of out c) level)
            (kahn_order out q' i') level'"
      using "1.IH" [OF Cons f [symmetric]] .
    then show ?thesis
      unfolding Cons
      by (subst canvas_loop.simps, simp only: list.case r prod.case)
         (simp add: kahn_order_Cons [OF f] level'_def)
  qed
qed

subsection \<open>Levels along a topological order\<close>

text \<open>The level of a node is one more than the highest level among the sources of its edges
  that have been processed, and zero when there is none.\<close>

definition level_eq :: "(string \<times> string) list \<Rightarrow> string list \<Rightarrow> (string \<times> nat) list \<Rightarrow> bool" where
  "level_eq E P level \<longleftrightarrow>
     (\<forall>v. get0 level v = Max (insert 0 ((\<lambda>u. get0 level u + 1) ` {u \<in> set P. (u, v) \<in> set E})))"

definition pass_spec :: "(string \<times> string list) list
    \<Rightarrow> (string \<Rightarrow> (string \<times> nat) list \<Rightarrow> (string \<times> nat) list) \<Rightarrow> bool" where
  "pass_spec out pass \<longleftrightarrow>
     (\<forall>c level. c \<notin> set (targets_of out c) \<longrightarrow>
        (\<forall>x. get0 (pass c level) x
               = (if x \<in> set (targets_of out c) then max (get0 level x) (get0 level c + 1)
                  else get0 level x)))"

lemma pass_spec_canvas:
  "pass_spec out (\<lambda>c level. fold (raise (get0 level c + 1)) (targets_of out c) level)"
  unfolding pass_spec_def
proof (intro allI impI)
  fix c x :: string and level :: "(string \<times> nat) list"
  have "1 \<le> get0 level c + 1" by simp
  then show "get0 (fold (raise (get0 level c + 1)) (targets_of out c) level) x
      = (if x \<in> set (targets_of out c) then max (get0 level x) (get0 level c + 1)
         else get0 level x)"
    by (rule get0_fold_raise)
qed

lemma pass_spec_import:
  "pass_spec out (\<lambda>c. fold (\<lambda>t level. raise (get0 level c + 1) t level) (targets_of out c))"
  unfolding pass_spec_def
proof (intro allI impI)
  fix c x :: string and level :: "(string \<times> nat) list"
  assume c: "c \<notin> set (targets_of out c)"
  have "1 \<le> get0 level c + 1" by simp
  then have "get0 (fold (raise (get0 level c + 1)) (targets_of out c) level) x
      = (if x \<in> set (targets_of out c) then max (get0 level x) (get0 level c + 1)
         else get0 level x)"
    by (rule get0_fold_raise)
  then show "get0 (fold (\<lambda>t level. raise (get0 level c + 1) t level) (targets_of out c) level) x
      = (if x \<in> set (targets_of out c) then max (get0 level x) (get0 level c + 1)
         else get0 level x)"
    unfolding fold_raise_current [OF c] .
qed

lemma targets_iff:
  assumes "adjacency E out"
  shows "t \<in> set (targets_of out c) \<longleftrightarrow> (c, t) \<in> set E"
proof -
  have "targets_of out c = map snd (filter (\<lambda>e. fst e = c) E)"
    using assms by (simp add: adjacency_def)
  then show ?thesis by force
qed

lemma level_eq_step:
  assumes adj: "adjacency E out"
    and fresh: "\<forall>t \<in> set (targets_of out c). t \<notin> set P \<and> t \<noteq> c"
    and eq: "level_eq E P level"
    and spec: "\<forall>x. get0 level' x
               = (if x \<in> set (targets_of out c) then max (get0 level x) (get0 level c + 1)
                  else get0 level x)"
  shows "level_eq E (P @ [c]) level'"
  unfolding level_eq_def
proof
  fix v
  define A where "A = {u \<in> set P. (u, v) \<in> set E}"
  define A' where "A' = {u \<in> set (P @ [c]). (u, v) \<in> set E}"
  define f where "f = (\<lambda>u. get0 level u + 1)"
  have ts: "t \<in> set (targets_of out c) \<longleftrightarrow> (c, t) \<in> set E" for t
    using adj by (rule targets_iff)
  have keep: "get0 level' u = get0 level u" if "u \<in> set (P @ [c])" for u
  proof -
    have "u \<notin> set (targets_of out c)" using that fresh by auto
    then show ?thesis using spec by simp
  qed
  have img: "(\<lambda>u. get0 level' u + 1) ` A' = f ` A'"
    unfolding f_def using keep by (intro image_cong) (auto simp: A'_def)
  have old: "get0 level v = Max (insert 0 (f ` A))"
    unfolding A_def f_def using eq [unfolded level_eq_def] by blast
  have fin: "finite (insert 0 (f ` A))" "insert 0 (f ` A) \<noteq> {}"
    by (simp_all add: A_def)
  have "get0 level' v = Max (insert 0 (f ` A'))"
  proof (cases "(c, v) \<in> set E")
    case True
    then have A': "A' = insert c A" by (auto simp: A'_def A_def)
    have "get0 level' v = max (f c) (get0 level v)"
      using spec True ts by (simp add: f_def max.commute)
    also have "\<dots> = max (f c) (Max (insert 0 (f ` A)))" unfolding old ..
    also have "\<dots> = Max (insert (f c) (insert 0 (f ` A)))"
      using fin by (rule Max_insert [symmetric])
    also have "insert (f c) (insert 0 (f ` A)) = insert 0 (f ` A')"
      unfolding A' by auto
    finally show ?thesis .
  next
    case False
    then have A': "A' = A" by (auto simp: A'_def A_def)
    have "get0 level' v = get0 level v" using spec False ts by simp
    then show ?thesis unfolding A' old .
  qed
  then have "get0 level' v = Max (insert 0 ((\<lambda>u. get0 level' u + 1) ` A'))"
    unfolding img .
  then show "get0 level' v
      = Max (insert 0 ((\<lambda>u. get0 level' u + 1) ` {u \<in> set (P @ [c]). (u, v) \<in> set E}))"
    unfolding A'_def .
qed

lemma level_eq_fold:
  assumes adj: "adjacency E out" and spec: "pass_spec out pass"
    and "distinct (P @ R)"
    and "\<forall>e \<in> set E. snd e \<in> set (P @ R) \<longrightarrow> fst e \<in> set (takeWhile (\<lambda>x. x \<noteq> snd e) (P @ R))"
    and "level_eq E P level"
  shows "level_eq E (P @ R) (fold pass R level)"
  using assms(3-)
proof (induction R arbitrary: P level)
  case Nil
  then show ?case by simp
next
  case (Cons c R)
  have ts: "t \<in> set (targets_of out c) \<longleftrightarrow> (c, t) \<in> set E" for t
    using adj by (rule targets_iff)
  have fresh: "\<forall>t \<in> set (targets_of out c). t \<notin> set P \<and> t \<noteq> c"
  proof (intro ballI)
    fix t assume "t \<in> set (targets_of out c)"
    then have e: "(c, t) \<in> set E" using ts by simp
    show "t \<notin> set P \<and> t \<noteq> c"
    proof (rule ccontr)
      assume "\<not> (t \<notin> set P \<and> t \<noteq> c)"
      then have m: "t \<in> set P \<or> t = c" by blast
      then have "t \<in> set (P @ c # R)" by auto
      then have b: "c \<in> set (takeWhile (\<lambda>x. x \<noteq> t) (P @ c # R))"
        using Cons.prems(2) e by force
      from m show False
      proof
        assume tp: "t \<in> set P"
        then have "takeWhile (\<lambda>x. x \<noteq> t) (P @ c # R) = takeWhile (\<lambda>x. x \<noteq> t) P"
          by (intro takeWhile_append1) auto
        then have "c \<in> set P" using b by (auto dest: set_takeWhileD)
        then show False using Cons.prems(1) by simp
      next
        assume "t = c"
        then show False using b by (auto dest: set_takeWhileD)
      qed
    qed
  qed
  then have "c \<notin> set (targets_of out c)" by blast
  then have s: "\<forall>x. get0 (pass c level) x
               = (if x \<in> set (targets_of out c) then max (get0 level x) (get0 level c + 1)
                  else get0 level x)"
    using spec by (simp add: pass_spec_def)
  have step: "level_eq E (P @ [c]) (pass c level)"
    using level_eq_step [OF adj fresh Cons.prems(3) s] .
  have "level_eq E ((P @ [c]) @ R) (fold pass R (pass c level))"
    using Cons.prems(1,2) by (intro Cons.IH [OF _ _ step]) simp_all
  then show ?case by simp
qed

lemma level_eq_edge:
  assumes "level_eq E R level" "(u, v) \<in> set E" "u \<in> set R"
  shows "get0 level u + 1 \<le> get0 level v"
proof -
  have "get0 level v = Max (insert 0 ((\<lambda>u. get0 level u + 1) ` {u \<in> set R. (u, v) \<in> set E}))"
    using assms(1) [unfolded level_eq_def] by blast
  moreover have "get0 level u + 1 \<in> insert 0 ((\<lambda>u. get0 level u + 1) ` {u \<in> set R. (u, v) \<in> set E})"
    using assms(2,3) by auto
  ultimately show ?thesis by (simp add: Max_ge)
qed

lemma level_eq_unique:
  assumes ac: "acyclic (set E)"
    and 1: "level_eq E R1 level1" and 2: "level_eq E R2 level2"
    and s: "set R1 = set R2"
  shows "get0 level1 v = get0 level2 v"
proof -
  have wf: "wf (set E)" using ac by (simp add: finite_acyclic_wf)
  show ?thesis
  proof (induction v rule: wf_induct_rule [OF wf])
    case (1 v)
    have "(\<lambda>u. get0 level1 u + 1) ` {u \<in> set R1. (u, v) \<in> set E}
        = (\<lambda>u. get0 level2 u + 1) ` {u \<in> set R2. (u, v) \<in> set E}"
      unfolding s using 1 by (intro image_cong) auto
    moreover have "get0 level1 v
        = Max (insert 0 ((\<lambda>u. get0 level1 u + 1) ` {u \<in> set R1. (u, v) \<in> set E}))"
      using assms(2) [unfolded level_eq_def] by blast
    moreover have "get0 level2 v
        = Max (insert 0 ((\<lambda>u. get0 level2 u + 1) ` {u \<in> set R2. (u, v) \<in> set E}))"
      using assms(3) [unfolded level_eq_def] by blast
    ultimately show ?case by simp
  qed
qed

subsection \<open>The maps the layouts start from\<close>

lemma set_insert_by: "set (insert_by compare a xs) = insert a (set xs)"
  by (induction xs) auto

lemma distinct_insert_by: "distinct (insert_by compare a xs) \<longleftrightarrow> a \<notin> set xs \<and> distinct xs"
  by (induction xs) (auto simp: set_insert_by)

lemma set_js_sort: "set (js_sort compare xs) = set xs"
  unfolding js_sort_def by (induction xs) (auto simp: set_insert_by)

lemma distinct_js_sort: "distinct (js_sort compare xs) \<longleftrightarrow> distinct xs"
  unfolding js_sort_def
proof (induction xs)
  case Nil
  then show ?case by simp
next
  case (Cons x xs)
  have "set (foldr (insert_by compare) xs []) = set xs"
    using set_js_sort [of compare xs] by (simp add: js_sort_def)
  with Cons show ?case by (simp add: distinct_insert_by)
qed

lemma js_sort_Nil: "js_sort compare [] = []"
  by (simp add: js_sort_def)

lemma get0_level_zero:
  "get0 (fold (\<lambda>i level. AList.update i (0::nat) level) queue level) v
     = (if v \<in> set queue then 0 else get0 level v)"
  by (induction queue arbitrary: level) (auto simp: get0_update)

lemma has_level_zero:
  "has_level (fold (\<lambda>i level. AList.update i 0 level) queue level) v
     \<longleftrightarrow> v \<in> set queue \<or> has_level level v"
  by (induction queue arbitrary: level) (auto simp: has_level_def update_conv')

lemma get0_new_map_zero: "get0 (new_map (map (\<lambda>n. (f n, 0)) ns)) v = 0"
proof -
  have "a = 0" if "map_of (new_map (map (\<lambda>n. (f n, 0)) ns)) v = Some a" for a
    using new_map_Some [OF that] by auto
  then show ?thesis unfolding get0_def by (auto split: option.splits)
qed

lemma targets_new_map_empty: "targets_of (new_map (map (\<lambda>n. (f n, [])) ns)) v = []"
proof -
  have "a = []" if "map_of (new_map (map (\<lambda>n. (f n, [])) ns)) v = Some a" for a
    using new_map_Some [OF that] by auto
  then show ?thesis unfolding targets_of_def by (auto split: option.splits)
qed

text \<open>The edges that the re-layout takes into account: those whose two ends are nodes.\<close>

definition canvas_rel :: "string list \<Rightarrow> rf_edge list \<Rightarrow> (string \<times> string) list" where
  "canvas_rel ids es =
     map (\<lambda>e. (source e, target e)) (filter (\<lambda>e. source e \<in> set ids \<and> target e \<in> set ids) es)"

lemma fold_relayout_edge:
  assumes keys: "\<forall>i. map_of byId i = None \<longleftrightarrow> i \<notin> set ids"
    and f: "fold (relayout_edge byId) es (indeg, out) = (indeg', out')"
  shows "(\<forall>v. get0 indeg' v
              = get0 indeg v + int (length (filter (\<lambda>p. snd p = v) (canvas_rel ids es))))
    \<and> (\<forall>u. targets_of out' u
              = targets_of out u @ map snd (filter (\<lambda>p. fst p = u) (canvas_rel ids es)))"
  using f
proof (induction es arbitrary: indeg out)
  case Nil
  then show ?case by (simp add: canvas_rel_def)
next
  case (Cons e es)
  show ?case
  proof (cases "source e \<in> set ids \<and> target e \<in> set ids")
    case False
    then have "relayout_edge byId e (indeg, out) = (indeg, out)"
      using keys by (auto simp: relayout_edge_def)
    with Cons.prems have "fold (relayout_edge byId) es (indeg, out) = (indeg', out')" by simp
    from Cons.IH [OF this] False show ?thesis by (simp add: canvas_rel_def)
  next
    case True
    let ?i1 = "AList.update (target e) (get0 indeg (target e) + 1) indeg"
    let ?o1 = "AList.update (source e) (targets_of out (source e) @ [target e]) out"
    have "relayout_edge byId e (indeg, out) = (?i1, ?o1)"
      using True keys by (auto simp: relayout_edge_def)
    with Cons.prems have "fold (relayout_edge byId) es (?i1, ?o1) = (indeg', out')" by simp
    from Cons.IH [OF this] True show ?thesis
      by (auto simp: canvas_rel_def get0_update targets_of_update)
  qed
qed

lemma has_fold_pass:
  assumes "\<forall>c level x. has_level (pass c level) x \<longleftrightarrow> x \<in> set (targets_of out c) \<or> has_level level x"
  shows "has_level (fold pass R level) x
     \<longleftrightarrow> has_level level x \<or> (\<exists>c \<in> set R. x \<in> set (targets_of out c))"
  using assms by (induction R arbitrary: level) auto

subsection \<open>The levels of an acyclic graph\<close>

lemma level_eq_initial: "\<forall>v. get0 level v = 0 \<Longrightarrow> level_eq E [] level"
  by (simp add: level_eq_def)

lemma kahn_levels:
  assumes adj: "adjacency E out"
    and ends: "\<forall>e \<in> set E. fst e \<in> set V \<and> snd e \<in> set V"
    and dV: "distinct V"
    and q1: "distinct queue" and q2: "set queue \<subseteq> set V"
    and deg: "\<forall>v. get0 indeg v = int (length (filter (\<lambda>e. snd e = v) E))"
    and q3: "\<forall>v \<in> set V. v \<in> set queue \<longleftrightarrow> get0 indeg v = 0"
    and ac: "acyclic (set E)"
    and spec: "pass_spec out pass"
    and hs: "\<forall>c level x. has_level (pass c level) x
                \<longleftrightarrow> x \<in> set (targets_of out c) \<or> has_level level x"
  shows "\<exists>R. set R = set V
           \<and> level_eq E R (fold pass (kahn_order out queue indeg)
                 (fold (\<lambda>i level. AList.update i 0 level) queue []))"
    and "has_level (fold pass (kahn_order out queue indeg)
                 (fold (\<lambda>i level. AList.update i 0 level) queue [])) v \<longleftrightarrow> v \<in> set V"
proof -
  define R where "R = kahn_order out queue indeg"
  define level0 where "level0 = fold (\<lambda>i level. AList.update i (0::nat) level) queue []"
  have inv: "kahn_inv E V [] queue indeg"
    using q1 q2 deg q3 by (rule kahn_inv_initial)
  have snds: "\<forall>e \<in> set E. snd e \<in> set V" using ends by blast
  from kahn_inv_order [OF adj snds inv]
  obtain indeg' where inv': "kahn_inv E V R [] indeg'" by (auto simp: R_def)
  have all: "set R = set V"
    using kahn_order_complete_iff(2) [OF adj ends dV inv ac] by (simp add: R_def)
  have dR: "distinct ([] @ R)" using inv' by (simp add: kahn_inv_def)
  have topo: "\<forall>e \<in> set E. snd e \<in> set ([] @ R)
      \<longrightarrow> fst e \<in> set (takeWhile (\<lambda>x. x \<noteq> snd e) ([] @ R))"
    using inv' by (simp add: kahn_inv_def)
  have empty: "get0 ([] :: (string \<times> nat) list) x = 0" for x
    by (simp add: get0_def)
  have zero: "\<forall>v. get0 level0 v = 0"
    by (simp add: level0_def get0_level_zero empty)
  have "level_eq E ([] @ R) (fold pass R level0)"
    using adj spec dR topo level_eq_initial [OF zero] by (rule level_eq_fold)
  then have "set R = set V \<and> level_eq E R (fold pass R level0)" using all by simp
  then show "\<exists>R. set R = set V
           \<and> level_eq E R (fold pass (kahn_order out queue indeg)
                 (fold (\<lambda>i level. AList.update i 0 level) queue []))"
    unfolding R_def level0_def by blast
  have h0: "has_level level0 v \<longleftrightarrow> v \<in> set queue"
    by (simp add: level0_def has_level_zero) (simp add: has_level_def)
  have h: "has_level (fold pass R level0) v
      \<longleftrightarrow> v \<in> set queue \<or> (\<exists>c \<in> set R. (c, v) \<in> set E)"
    using has_fold_pass [OF hs, of R level0 v] h0 targets_iff [OF adj] by simp
  have "v \<in> set queue \<or> (\<exists>c \<in> set R. (c, v) \<in> set E) \<longleftrightarrow> v \<in> set V"
  proof
    assume "v \<in> set queue \<or> (\<exists>c \<in> set R. (c, v) \<in> set E)"
    then show "v \<in> set V" using q2 ends by force
  next
    assume v: "v \<in> set V"
    show "v \<in> set queue \<or> (\<exists>c \<in> set R. (c, v) \<in> set E)"
    proof (cases "get0 indeg v = 0")
      case True
      then show ?thesis using q3 v by blast
    next
      case False
      then have "filter (\<lambda>e. snd e = v) E \<noteq> []" using deg by auto
      then obtain e where e: "e \<in> set E" "snd e = v"
        by (auto simp: filter_empty_conv)
      then have "fst e \<in> set R" using ends all by blast
      moreover have "(fst e, v) \<in> set E" using e by auto
      ultimately show ?thesis by blast
    qed
  qed
  with h show "has_level (fold pass (kahn_order out queue indeg)
                 (fold (\<lambda>i level. AList.update i 0 level) queue [])) v \<longleftrightarrow> v \<in> set V"
    unfolding R_def level0_def by simp
qed

subsection \<open>The levels of the re-layout\<close>

lemma canvas_levels_acyclic:
  assumes d: "distinct (map rf_id ns)"
    and ac: "acyclic (set (canvas_rel (map rf_id ns) es))"
  shows "\<exists>R. set R = set (map rf_id ns)
            \<and> level_eq (canvas_rel (map rf_id ns) es) R (canvas_levels ns es)"
    and "has_level (canvas_levels ns es) v \<longleftrightarrow> v \<in> set (map rf_id ns)"
proof -
  let ?ids = "map rf_id ns"
  let ?byId = "new_map (map (\<lambda>n. (rf_id n, n)) ns)"
  let ?E = "canvas_rel ?ids es"
  let ?pass = "\<lambda>c level. fold (raise (get0 level c + 1)) (targets_of out c) level"
  obtain indeg out where f: "fold (relayout_edge ?byId) es
      (new_map (map (\<lambda>n. (rf_id n, 0)) ns), new_map (map (\<lambda>n. (rf_id n, [])) ns)) = (indeg, out)"
    by (cases "fold (relayout_edge ?byId) es
      (new_map (map (\<lambda>n. (rf_id n, 0)) ns), new_map (map (\<lambda>n. (rf_id n, [])) ns))")
  let ?queue = "js_sort (sortByCanvas ?byId) (filter (\<lambda>i. get0 indeg i = 0) ?ids)"
  let ?level0 = "fold (\<lambda>i level. AList.update i (0::nat) level) ?queue []"
  obtain level mx where c: "canvas_loop out ?queue indeg ?level0 0 = (level, mx)"
    by (cases "canvas_loop out ?queue indeg ?level0 0")
  have keys: "\<forall>i. map_of ?byId i = None \<longleftrightarrow> i \<notin> set ?ids"
    by (simp add: map_of_new_map_None image_image)
  from fold_relayout_edge [OF keys f]
  have deg: "\<forall>v. get0 indeg v = int (length (filter (\<lambda>e. snd e = v) ?E))"
    and adj: "adjacency ?E out"
    by (simp_all add: get0_new_map_zero targets_new_map_empty adjacency_def)
  have ends: "\<forall>e \<in> set ?E. fst e \<in> set ?ids \<and> snd e \<in> set ?ids"
    by (auto simp: canvas_rel_def)
  have q1: "distinct ?queue" using d by (simp add: distinct_js_sort)
  have q2: "set ?queue \<subseteq> set ?ids" by (auto simp: set_js_sort)
  have q3: "\<forall>v \<in> set ?ids. v \<in> set ?queue \<longleftrightarrow> get0 indeg v = 0"
    by (auto simp: set_js_sort)
  have hs: "\<forall>c level x. has_level (fold (raise (get0 level c + 1)) (targets_of out c) level) x
                \<longleftrightarrow> x \<in> set (targets_of out c) \<or> has_level level x"
    by (simp add: has_fold_raise)
  have level: "level = fold (\<lambda>c level. fold (raise (get0 level c + 1)) (targets_of out c) level)
      (kahn_order out ?queue indeg) ?level0"
    using canvas_loop_order [of out ?queue indeg ?level0 0] c by simp
  note k = kahn_levels [OF adj ends d q1 q2 deg q3 ac pass_spec_canvas hs, folded level]
  have "filter (\<lambda>i. map_of level i = None) ?ids = []"
    using k(2) by (auto simp: has_level_def filter_empty_conv)
  then have "canvas_levels ns es = level"
    unfolding canvas_levels_def Let_def f prod.case c by (simp add: js_sort_Nil)
  with k show "\<exists>R. set R = set (map rf_id ns)
            \<and> level_eq (canvas_rel (map rf_id ns) es) R (canvas_levels ns es)"
    and "has_level (canvas_levels ns es) v \<longleftrightarrow> v \<in> set (map rf_id ns)"
    by simp_all
qed

subsection \<open>The levels of the import\<close>

lemma import_edges_Some:
  assumes "\<forall>e \<in> set es. map_of out (from_id e) \<noteq> None"
  shows "\<exists>indeg' out'. import_edges (indeg, out) es = Some (indeg', out')
     \<and> (\<forall>v. get0 indeg' v = get0 indeg v
              + int (length (filter (\<lambda>p. snd p = v) (map (\<lambda>e. (from_id e, to_id e)) es))))
     \<and> (\<forall>u. targets_of out' u = targets_of out u
              @ map snd (filter (\<lambda>p. fst p = u) (map (\<lambda>e. (from_id e, to_id e)) es)))"
  using assms
proof (induction es arbitrary: indeg out)
  case Nil
  then show ?case by simp
next
  case (Cons e es)
  then obtain ts where ts: "map_of out (from_id e) = Some ts" by auto
  then have t: "targets_of out (from_id e) = ts" by (simp add: targets_of_def)
  let ?i1 = "AList.update (to_id e) (get0 indeg (to_id e) + 1) indeg"
  let ?o1 = "AList.update (from_id e) (ts @ [to_id e]) out"
  have "\<forall>e' \<in> set es. map_of ?o1 (from_id e') \<noteq> None"
    using Cons.prems by (simp add: update_conv')
  from Cons.IH [OF this, of ?i1]
  obtain indeg' out' where r: "import_edges (?i1, ?o1) es = Some (indeg', out')"
    and i: "\<forall>v. get0 indeg' v = get0 ?i1 v
              + int (length (filter (\<lambda>p. snd p = v) (map (\<lambda>e. (from_id e, to_id e)) es)))"
    and o: "\<forall>u. targets_of out' u = targets_of ?o1 u
              @ map snd (filter (\<lambda>p. fst p = u) (map (\<lambda>e. (from_id e, to_id e)) es))"
    by blast
  have "import_edges (indeg, out) (e # es) = Some (indeg', out')"
    using ts r by simp
  moreover have "\<forall>v. get0 indeg' v = get0 indeg v
              + int (length (filter (\<lambda>p. snd p = v) (map (\<lambda>e. (from_id e, to_id e)) (e # es))))"
    using i by (simp add: get0_update)
  moreover have "\<forall>u. targets_of out' u = targets_of out u
              @ map snd (filter (\<lambda>p. fst p = u) (map (\<lambda>e. (from_id e, to_id e)) (e # es)))"
    using o t by (simp add: targets_of_update)
  ultimately show ?case by blast
qed

lemma import_levels_acyclic:
  assumes u: "unique_ids g" and r: "referenced_edges g" and ac: "acyclic_graph g"
  shows "\<exists>level. import_levels g = Some level
     \<and> (\<exists>R. set R = set (map node_id (nodes g))
            \<and> level_eq (map (\<lambda>e. (from_id e, to_id e)) (edges g)) R level)"
proof -
  let ?ids = "map node_id (nodes g)"
  let ?E = "map (\<lambda>e. (from_id e, to_id e)) (edges g)"
  let ?out0 = "new_map (map (\<lambda>n. (node_id n, [])) (nodes g))"
  have "\<forall>e \<in> set (edges g). map_of ?out0 (from_id e) \<noteq> None"
    using r by (auto simp: referenced_edges_def map_of_new_map_None image_image)
  from import_edges_Some [OF this, of "new_map (map (\<lambda>n. (node_id n, 0)) (nodes g))"]
  obtain indeg out where f: "import_edges (new_map (map (\<lambda>n. (node_id n, 0)) (nodes g)), ?out0)
        (edges g) = Some (indeg, out)"
    and deg: "\<forall>v. get0 indeg v = int (length (filter (\<lambda>e. snd e = v) ?E))"
    and adj: "adjacency ?E out"
    unfolding adjacency_def get0_new_map_zero targets_new_map_empty by auto
  let ?queue = "filter (\<lambda>i. get0 indeg i = 0) ?ids"
  have d: "distinct ?ids" using u by (simp add: unique_ids_def)
  have ends: "\<forall>e \<in> set ?E. fst e \<in> set ?ids \<and> snd e \<in> set ?ids"
    using r by (auto simp: referenced_edges_def)
  have q1: "distinct ?queue" using d by simp
  have q2: "set ?queue \<subseteq> set ?ids" by auto
  have q3: "\<forall>v \<in> set ?ids. v \<in> set ?queue \<longleftrightarrow> get0 indeg v = 0" by auto
  have acE: "acyclic (set ?E)" using ac by (simp add: acyclic_graph_def edge_rel_def)
  have hs: "\<forall>c level x.
      has_level (fold (\<lambda>t level. raise (get0 level c + 1) t level) (targets_of out c) level) x
        \<longleftrightarrow> x \<in> set (targets_of out c) \<or> has_level level x"
    by (intro allI) (rule has_fold_raise_current)
  note k = kahn_levels(1) [OF adj ends d q1 q2 deg q3 acE pass_spec_import hs,
      folded import_loop_order]
  have "import_levels g = Some (import_loop out ?queue indeg
      (fold (\<lambda>i level. AList.update i 0 level) ?queue []))"
    unfolding import_levels_def f by (simp add: Let_def)
  with k show ?thesis by simp
qed

subsection \<open>Levels along the edges, and levels after a re-layout\<close>

lemma autoLayoutNodes_ids: "map rf_id (autoLayoutNodes ns es mode) = map rf_id ns"
  by (simp add: autoLayoutNodes_def Let_def place_def comp_def)

lemma acyclic_no_edges: "acyclic ({} :: (string \<times> string) set)"
  by (simp add: acyclic_def)

lemma has_level_Some: "has_level level x \<Longrightarrow> map_of level x = Some (get0 level x)"
  by (auto simp: has_level_def get0_def)

lemma canvas_levels_edge:
  assumes d: "distinct (map rf_id ns)"
    and ac: "acyclic (set (canvas_rel (map rf_id ns) es))"
    and e: "e \<in> set es" "source e \<in> rf_id ` set ns" "target e \<in> rf_id ` set ns"
  shows "get0 (canvas_levels ns es) (source e) + 1 \<le> get0 (canvas_levels ns es) (target e)"
proof -
  from canvas_levels_acyclic(1) [OF d ac]
  obtain R where R: "set R = set (map rf_id ns)"
    and eq: "level_eq (canvas_rel (map rf_id ns) es) R (canvas_levels ns es)" by blast
  have "(source e, target e) \<in> set (canvas_rel (map rf_id ns) es)"
    using e by (auto simp: canvas_rel_def)
  moreover have "source e \<in> set R" using e R by simp
  ultimately show ?thesis using eq by (rule level_eq_edge [rotated])
qed

lemma canvas_levels_same_graph:
  assumes d: "distinct (map rf_id ns)"
    and ac: "acyclic (set (canvas_rel (map rf_id ns) es))"
    and same: "map rf_id ns' = map rf_id ns"
  shows "map_of (canvas_levels ns' es) = map_of (canvas_levels ns es)"
proof
  fix v
  have d': "distinct (map rf_id ns')" and ac': "acyclic (set (canvas_rel (map rf_id ns') es))"
    using d ac same by simp_all
  from canvas_levels_acyclic(1) [OF d ac]
  obtain R where R: "set R = set (map rf_id ns)"
    and eq: "level_eq (canvas_rel (map rf_id ns) es) R (canvas_levels ns es)" by blast
  from canvas_levels_acyclic(1) [OF d' ac']
  obtain R' where R': "set R' = set (map rf_id ns)"
    and eq': "level_eq (canvas_rel (map rf_id ns) es) R' (canvas_levels ns' es)"
    unfolding same by blast
  have g: "get0 (canvas_levels ns' es) v = get0 (canvas_levels ns es) v"
    using ac eq' eq by (rule level_eq_unique) (simp add: R R')
  have h: "has_level (canvas_levels ns es) v \<longleftrightarrow> v \<in> set (map rf_id ns)"
    by (rule canvas_levels_acyclic(2) [OF d ac])
  have h': "has_level (canvas_levels ns' es) v \<longleftrightarrow> v \<in> set (map rf_id ns)"
    using canvas_levels_acyclic(2) [OF d' ac', of v] unfolding same .
  show "map_of (canvas_levels ns' es) v = map_of (canvas_levels ns es) v"
  proof (cases "v \<in> set (map rf_id ns)")
    case True
    then show ?thesis using h h' g by (simp add: has_level_Some)
  next
    case False
    then show ?thesis using h h' by (simp add: has_level_def)
  qed
qed

lemma import_levels_edges:
  assumes u: "unique_ids g" and r: "referenced_edges g" and ac: "acyclic_graph g"
  shows "\<exists>level. import_levels g = Some level
     \<and> (\<forall>e \<in> set (edges g). get0 level (from_id e) + 1 \<le> get0 level (to_id e))"
proof -
  from import_levels_acyclic [OF u r ac]
  obtain level R where l: "import_levels g = Some level"
    and R: "set R = set (map node_id (nodes g))"
    and eq: "level_eq (map (\<lambda>e. (from_id e, to_id e)) (edges g)) R level" by blast
  have "get0 level (from_id e) + 1 \<le> get0 level (to_id e)" if e: "e \<in> set (edges g)" for e
  proof -
    have "(from_id e, to_id e) \<in> set (map (\<lambda>e. (from_id e, to_id e)) (edges g))"
      using e by auto
    moreover have "from_id e \<in> set R" using e r R by (auto simp: referenced_edges_def)
    ultimately show ?thesis using eq by (rule level_eq_edge [rotated])
  qed
  with l show ?thesis by blast
qed

text \<open>
  C6, for graphs without a cycle. Let the nodes have pairwise distinct identifiers and let the
  edges between the nodes form no cycle. Then the levels that \<open>autoLayoutNodes\<close> computes put
  the target of every edge between two nodes at least one level after its source; they depend
  on the identifiers of the nodes and on the edges only, not on the positions or the data of
  the nodes, so that running the leveling again on the same graph, in particular on the nodes
  that a re-layout has moved, gives the same level for every node. The levels that
  \<open>layoutGraph\<close> computes for a graph with distinct identifiers, whose edges all join nodes
  and form no cycle, exist and put the target of every edge at least one level after its
  source.
\<close>

theorem leveling_of_acyclic_graphs:
  "(distinct (map rf_id ns) \<and> acyclic (set (canvas_rel (map rf_id ns) es)) \<longrightarrow>
      (\<forall>e \<in> set es. source e \<in> rf_id ` set ns \<and> target e \<in> rf_id ` set ns \<longrightarrow>
          get0 (canvas_levels ns es) (source e) + 1 \<le> get0 (canvas_levels ns es) (target e))
      \<and> (\<forall>ns'. map rf_id ns' = map rf_id ns \<longrightarrow>
            map_of (canvas_levels ns' es) = map_of (canvas_levels ns es))
      \<and> map_of (canvas_levels (autoLayoutNodes ns es mode) es) = map_of (canvas_levels ns es))
   \<and> (unique_ids g \<and> referenced_edges g \<and> acyclic_graph g \<longrightarrow>
        (\<exists>level. import_levels g = Some level
           \<and> (\<forall>e \<in> set (edges g). get0 level (from_id e) + 1 \<le> get0 level (to_id e))))"
proof (intro conjI impI)
  assume a: "distinct (map rf_id ns) \<and> acyclic (set (canvas_rel (map rf_id ns) es))"
  show "\<forall>e \<in> set es. source e \<in> rf_id ` set ns \<and> target e \<in> rf_id ` set ns \<longrightarrow>
          get0 (canvas_levels ns es) (source e) + 1 \<le> get0 (canvas_levels ns es) (target e)"
    using a canvas_levels_edge [of ns es] by blast
  show "\<forall>ns'. map rf_id ns' = map rf_id ns \<longrightarrow>
            map_of (canvas_levels ns' es) = map_of (canvas_levels ns es)"
    using a canvas_levels_same_graph [of ns es] by blast
  show "map_of (canvas_levels (autoLayoutNodes ns es mode) es) = map_of (canvas_levels ns es)"
    using a canvas_levels_same_graph [of ns es "autoLayoutNodes ns es mode"]
    by (simp add: autoLayoutNodes_ids)
next
  assume "unique_ids g \<and> referenced_edges g \<and> acyclic_graph g"
  then show "\<exists>level. import_levels g = Some level
           \<and> (\<forall>e \<in> set (edges g). get0 level (from_id e) + 1 \<le> get0 level (to_id e))"
    using import_levels_edges [of g] by blast
qed

theorem leveling_of_acyclic_graphs_witness:
  "distinct (map rf_id [node_at ''a'' 0, node_at ''b'' 100])
   \<and> acyclic (set (canvas_rel (map rf_id [node_at ''a'' 0, node_at ''b'' 100])
                    [edge_between ''a'' ''b'']))
   \<and> get0 (canvas_levels [node_at ''a'' 0, node_at ''b'' 100] [edge_between ''a'' ''b'']) ''a'' + 1
       \<le> get0 (canvas_levels [node_at ''a'' 0, node_at ''b'' 100] [edge_between ''a'' ''b'']) ''b''
   \<and> map_of (canvas_levels (autoLayoutNodes [node_at ''a'' 0, node_at ''b'' 100]
                              [edge_between ''a'' ''b''] Grid) [edge_between ''a'' ''b''])
       = map_of (canvas_levels [node_at ''a'' 0, node_at ''b'' 100] [edge_between ''a'' ''b''])
   \<and> canvas_levels [node_at ''a'' 0, node_at ''b'' 100] [edge_between ''a'' ''b'']
       = [(''a'', 0), (''b'', 1)]
   \<and> unique_ids two_nodes \<and> referenced_edges two_nodes \<and> acyclic_graph two_nodes
   \<and> (\<exists>level. import_levels two_nodes = Some level
         \<and> get0 level ''a'' + 1 \<le> get0 level ''b'')"
proof -
  let ?ns = "[node_at ''a'' 0, node_at ''b'' 100]"
  let ?es = "[edge_between ''a'' ''b'']"
  have d: "distinct (map rf_id ?ns)" by (simp add: node_at_def)
  have rel: "canvas_rel (map rf_id ?ns) ?es = [(''a'', ''b'')]"
    by (simp add: canvas_rel_def node_at_def edge_between_def)
  have ac: "acyclic (set (canvas_rel (map rf_id ?ns) ?es))"
    unfolding rel by (simp add: acyclic_insert acyclic_no_edges)
  have v: "canvas_levels ?ns ?es = [(''a'', 0), (''b'', 1)]" by code_simp
  have u: "unique_ids two_nodes" by (simp add: unique_ids_def two_nodes_def)
  have r: "referenced_edges two_nodes" by (simp add: referenced_edges_def two_nodes_def)
  have ag: "acyclic_graph two_nodes"
    by (simp add: acyclic_graph_def edge_rel_def two_nodes_def acyclic_insert acyclic_no_edges)
  note t = leveling_of_acyclic_graphs [of ?ns ?es Grid two_nodes]
  have 1: "\<forall>e \<in> set ?es. source e \<in> rf_id ` set ?ns \<and> target e \<in> rf_id ` set ?ns \<longrightarrow>
          get0 (canvas_levels ?ns ?es) (source e) + 1 \<le> get0 (canvas_levels ?ns ?es) (target e)"
    using t d ac by blast
  have 2: "map_of (canvas_levels (autoLayoutNodes ?ns ?es Grid) ?es)
      = map_of (canvas_levels ?ns ?es)"
    using t d ac by blast
  have 3: "\<exists>level. import_levels two_nodes = Some level
      \<and> (\<forall>e \<in> set (edges two_nodes). get0 level (from_id e) + 1 \<le> get0 level (to_id e))"
    using t u r ag by blast
  have 4: "get0 (canvas_levels ?ns ?es) ''a'' + 1 \<le> get0 (canvas_levels ?ns ?es) ''b''"
    using 1 by (simp add: node_at_def edge_between_def)
  have 5: "\<exists>level. import_levels two_nodes = Some level
         \<and> get0 level ''a'' + 1 \<le> get0 level ''b''"
    using 3 by (simp add: two_nodes_def)
  from d ac 4 2 v u r ag 5 show ?thesis by blast
qed

text \<open>
  C6 as stated fails for a graph with a cycle: for the two nodes a and b with an edge from a
  to b and an edge from b to a, \<open>autoLayoutNodes\<close> gives a the level 1 and b the level 2, and
  the edge from b to a ends one level before its source; \<open>layoutGraph\<close> gives no level to
  either node, so that both are read as level 0.
\<close>

theorem leveling_counterexample:
  "canvas_levels [node_at ''a'' 0, node_at ''b'' 100]
       [edge_between ''a'' ''b'', edge_between ''b'' ''a''] = [(''a'', 1), (''b'', 2)]
   \<and> source (edge_between ''b'' ''a'') = ''b'' \<and> target (edge_between ''b'' ''a'') = ''a''
   \<and> \<not> (get0 (canvas_levels [node_at ''a'' 0, node_at ''b'' 100]
                 [edge_between ''a'' ''b'', edge_between ''b'' ''a'']) ''b'' + 1
           \<le> get0 (canvas_levels [node_at ''a'' 0, node_at ''b'' 100]
                 [edge_between ''a'' ''b'', edge_between ''b'' ''a'']) ''a'')
   \<and> import_levels (two_nodes\<lparr>edges := [\<lparr>from_id = ''a'', to_id = ''b''\<rparr>,
                                         \<lparr>from_id = ''b'', to_id = ''a''\<rparr>]\<rparr>) = Some []
   \<and> \<not> (get0 ([] :: (string \<times> nat) list) ''a'' + 1 \<le> get0 ([] :: (string \<times> nat) list) ''b'')"
  by code_simp

end
